theory Spec2Isabelle
  imports Complex_Main "HOL-Library.AList" "HOL-Library.Multiset"
begin

section \<open>Configuration and cards (engine\_core.py)\<close>

text \<open>
  Money (stacks, bets, the pot) is a Python number: an \<open>int\<close> at the start, a
  \<open>float\<close> as soon as a bet is applied. The model computes with exact rationals; the
  factors \<open>0.5\<close>, \<open>1.5\<close>, \<open>0.75\<close> and \<open>1.25\<close> of the source are the rationals
  \<open>1/2\<close>, \<open>3/2\<close>, \<open>3/4\<close> and \<open>5/4\<close>. A card is its two-character string.
\<close>

type_synonym card = string

definition NUM_GAMES :: nat where
  "NUM_GAMES = 50"

definition STARTING_STACK :: rat where
  "STARTING_STACK = 10000"

definition BUY_IN :: rat where
  "BUY_IN = 100"

definition PLAYER_NAMES :: "string list" where
  "PLAYER_NAMES = [''Player A'', ''Player B'', ''Player C'', ''Player D'', ''Player E'']"

definition SUITS :: "string list" where
  "SUITS = [''h'', ''d'', ''s'', ''c'']"

text \<open>The thirteen one-character rank strings \<open>'2'\<close> to \<open>'A'\<close>, in the source's order.\<close>

definition RANKS :: "string list" where
  "RANKS = map (\<lambda>c. [c]) ''23456789TJQKA''"

text \<open>\<open>create_deck\<close>: \<open>[r + s for s in SUITS for r in RANKS]\<close>.\<close>

definition create_deck :: "card list" where
  "create_deck = concat (map (\<lambda>s. map (\<lambda>r. r @ s) RANKS) SUITS)"

text \<open>\<open>get_clean_deck\<close>: \<open>[r+s for r in ranks for s in suits]\<close>.\<close>

definition get_clean_deck :: "card list" where
  "get_clean_deck = concat (map (\<lambda>r. map (\<lambda>s. r @ s) SUITS) RANKS)"

datatype error = IndexError

section \<open>Hand scoring\<close>

text \<open>
  The five-card scorer is the \<open>treys\<close> library, which is not part of the repository. It
  is a parameter \<open>ev\<close> of the model: \<open>ev combo = Some s\<close> when \<open>Card.new\<close> and
  \<open>evaluator.evaluate\<close> return the score \<open>s\<close> (lower is better), \<open>None\<close> when either
  raises, which \<open>evaluate_best_hand\<close> catches.
\<close>

type_synonym evaluator = "card list \<Rightarrow> int option"

text \<open>\<open>itertools.combinations(xs, k)\<close>, in its order.\<close>

fun combinations :: "'a list \<Rightarrow> nat \<Rightarrow> 'a list list" where
  "combinations xs 0 = [[]]"
| "combinations [] (Suc k) = []"
| "combinations (x # xs) (Suc k) =
     map ((#) x) (combinations xs k) @ combinations xs (Suc k)"

definition best_step :: "evaluator \<Rightarrow> card list \<Rightarrow> int \<Rightarrow> int" where
  "best_step ev combo best_score =
     (case ev combo of
        None \<Rightarrow> best_score
      | Some score \<Rightarrow> if score < best_score then score else best_score)"

definition evaluate_best_hand :: "evaluator \<Rightarrow> card list \<Rightarrow> int" where
  "evaluate_best_hand ev seven_cards =
     fold (best_step ev) (combinations seven_cards (Suc (Suc (Suc (Suc (Suc 0)))))) 7463"

definition evaluate_hand :: "evaluator \<Rightarrow> card list \<Rightarrow> card list \<Rightarrow> int" where
  "evaluate_hand ev hole community = evaluate_best_hand ev (hole @ community)"

section \<open>The equity estimator\<close>

text \<open>
  A Python slice \<open>xs[a:b]\<close> with integer bounds: a negative bound counts from the end,
  both bounds are clipped to the list, and the slice is empty when they cross.
\<close>

definition py_slice :: "int \<Rightarrow> int \<Rightarrow> 'a list \<Rightarrow> 'a list" where
  "py_slice a b xs =
     (let n = int (length xs);
          lo = (if a < 0 then max 0 (a + n) else min a n);
          hi = (if b < 0 then max 0 (b + n) else min b n)
      in take (nat (hi - lo)) (drop (nat lo) xs))"

text \<open>
  \<open>random.shuffle(remaining_deck)\<close> is the parameter \<open>shuffle\<close>: \<open>shuffle t d\<close> is the
  order the \<open>t\<close>-th call leaves the list \<open>d\<close> in. The list is shuffled in place, so each
  trial starts from the order the one before left.
\<close>

type_synonym shuffler = "nat \<Rightarrow> card list \<Rightarrow> card list"

text \<open>The safety check of a trial, negated: the pool can supply the cards.\<close>

definition can_deal :: "card list \<Rightarrow> int \<Rightarrow> card list \<Rightarrow> bool" where
  "can_deal current_board num_opponents remaining_deck \<longleftrightarrow>
     \<not> (5 - int (length current_board) + num_opponents * 2 > int (length remaining_deck))"

text \<open>Steps 1 to 4 of a trial: the hero's score and the best opponent score.\<close>

definition trial_scores ::
  "evaluator \<Rightarrow> card list \<Rightarrow> card list \<Rightarrow> int \<Rightarrow> card list \<Rightarrow> int \<times> int" where
  "trial_scores ev hero_hand current_board num_opponents remaining_deck =
     (let cards_needed_on_board = 5 - int (length current_board);
          runout = py_slice 0 cards_needed_on_board remaining_deck;
          final_board = current_board @ runout;
          opponent_hands =
            map (\<lambda>k. py_slice (cards_needed_on_board + 2 * int k)
                               (cards_needed_on_board + 2 * int k + 2) remaining_deck)
                [0..<nat num_opponents];
          hero_score = evaluate_best_hand ev (hero_hand @ final_board);
          opp_scores = map (\<lambda>opp_hole. evaluate_best_hand ev (opp_hole @ final_board))
                           opponent_hands;
          best_opponent_score = (if opp_scores = [] then 7463 else min_list opp_scores)
      in (hero_score, best_opponent_score))"

text \<open>One pass of the loop body on the state \<open>(remaining_deck, wins)\<close>.\<close>

definition trial_step ::
  "evaluator \<Rightarrow> shuffler \<Rightarrow> card list \<Rightarrow> card list \<Rightarrow> int \<Rightarrow> nat
     \<Rightarrow> card list \<times> rat \<Rightarrow> card list \<times> rat" where
  "trial_step ev shuffle hero_hand current_board num_opponents t s =
     (let remaining_deck = shuffle t (fst s); wins = snd s in
      if \<not> can_deal current_board num_opponents remaining_deck then (remaining_deck, wins)
      else
        (let (hero_score, best_opponent_score) =
               trial_scores ev hero_hand current_board num_opponents remaining_deck
         in if hero_score < best_opponent_score then (remaining_deck, wins + 1)
            else if hero_score = best_opponent_score then (remaining_deck, wins + 1 / 2)
            else (remaining_deck, wins)))"

definition unknown_cards :: "card list \<Rightarrow> card list \<Rightarrow> card list" where
  "unknown_cards hero_hand current_board =
     filter (\<lambda>c. c \<notin> set (hero_hand @ current_board)) get_clean_deck"

definition calculate_multiplayer_equity ::
  "evaluator \<Rightarrow> shuffler \<Rightarrow> card list \<Rightarrow> card list \<Rightarrow> int \<Rightarrow> int \<Rightarrow> rat" where
  "calculate_multiplayer_equity ev shuffle hero_hand current_board num_players iterations =
     (let remaining_deck = unknown_cards hero_hand current_board;
          num_opponents = num_players - 1;
          wins = snd (fold (trial_step ev shuffle hero_hand current_board num_opponents)
                           [0..<nat iterations] (remaining_deck, 0));
          win_pct = (if iterations = 0 then 0 else (wins / of_int iterations) * 100)
      in win_pct / 100)"

subsection \<open>The estimator as the specification words it\<close>

text \<open>
  The definitions of this subsection follow section 4.1 of the specification, not the
  source. The best 5-of-7 hand: the oracle scores every hand of five of the cards, the
  lowest score is the best, and the sentinel 7463 stands for ``no hand''.
\<close>

definition five_card_hands :: "card list \<Rightarrow> card list list" where
  "five_card_hands cards = filter (\<lambda>h. length h = 5) (subseqs cards)"

definition oracle_scores :: "evaluator \<Rightarrow> card list \<Rightarrow> int list" where
  "oracle_scores ev cards = List.map_filter ev (five_card_hands cards)"

definition best_of_seven :: "evaluator \<Rightarrow> card list \<Rightarrow> int" where
  "best_of_seven ev cards = Min (set (7463 # oracle_scores ev cards))"

text \<open>The pool: the cards of the deck not already known (hero hand and current board).\<close>

definition spec_pool :: "card list \<Rightarrow> card list \<Rightarrow> card list" where
  "spec_pool hero board = filter (\<lambda>c. c \<notin> set hero \<and> c \<notin> set board) get_clean_deck"

text \<open>
  A trial can be dealt when the pool supplies the board slots still needed and two cards
  for each opponent.
\<close>

definition spec_can_deal :: "card list \<Rightarrow> nat \<Rightarrow> card list \<Rightarrow> bool" where
  "spec_can_deal board opponents pool \<longleftrightarrow>
     (5 - length board) + 2 * opponents \<le> length pool"

text \<open>
  One trial on the pool in the order the trial draws from it: the community cards needed to
  reach 5 are drawn first, then two private cards for each opponent, without reuse. The
  trial contributes 1 if the hero's score is strictly lower than the best opponent score,
  a half if it ties with it, 0 otherwise; with no opponent it is a full win.
\<close>

definition spec_trial :: "evaluator \<Rightarrow> card list \<Rightarrow> card list \<Rightarrow> nat \<Rightarrow> card list \<Rightarrow> rat" where
  "spec_trial ev hero board opponents pool =
     (let drawn = take (5 - length board) pool;
          rest = drop (5 - length board) pool;
          final = board @ drawn;
          holes = map (\<lambda>k. take 2 (drop (2 * k) rest)) [0..<opponents];
          hero_score = best_of_seven ev (hero @ final);
          best_opponent = Min (set (map (\<lambda>hole. best_of_seven ev (hole @ final)) holes))
      in if opponents = 0 then 1
         else if hero_score < best_opponent then 1
         else if hero_score = best_opponent then 1 / 2
         else 0)"

text \<open>
  The orders of the pool that the requested trials draw from, one per trial (each shuffle
  starts from the order the one before left), and those of them that can be dealt: the
  trials actually run.
\<close>

fun trial_decks :: "shuffler \<Rightarrow> card list \<Rightarrow> nat list \<Rightarrow> card list list" where
  "trial_decks shuffle d [] = []"
| "trial_decks shuffle d (t # ts) = shuffle t d # trial_decks shuffle (shuffle t d) ts"

definition spec_trials_run ::
  "shuffler \<Rightarrow> card list \<Rightarrow> card list \<Rightarrow> int \<Rightarrow> int \<Rightarrow> card list list" where
  "spec_trials_run shuffle hero board num_players iterations =
     filter (spec_can_deal board (nat (num_players - 1)))
       (trial_decks shuffle (spec_pool hero board) [0..<nat iterations])"

text \<open>
  The estimate: the sum of the trial contributions over the number of trials actually run,
  and 0 when no trial ran.
\<close>

definition spec_equity ::
  "evaluator \<Rightarrow> shuffler \<Rightarrow> card list \<Rightarrow> card list \<Rightarrow> int \<Rightarrow> int \<Rightarrow> rat" where
  "spec_equity ev shuffle hero board num_players iterations =
     (let run = spec_trials_run shuffle hero board num_players iterations
      in if run = [] then 0
         else sum_list (map (spec_trial ev hero board (nat (num_players - 1))) run)
                / of_nat (length run))"

section \<open>Player state (engine\_core.py)\<close>

text \<open>
  \<open>PlayerState\<close>. The strategy object is outside the model: what it returns is an input of
  each hand (below). \<open>PlayerState.index\<close> is the position in the list \<open>players\<close>
  (\<open>play_match\<close> builds the list with \<open>enumerate\<close>), so the model identifies a player by
  that position.
\<close>

record player =
  name :: string
  stack :: rat
  is_lost_match :: bool
  hole_cards :: "card list"
  current_bet_r1 :: rat
  current_bet_r2 :: rat
  final_round_bet :: rat
  has_folded :: bool
  hand_score :: int
  round_equities :: "rat list"

definition new_player :: "string \<Rightarrow> player" where
  "new_player nm =
     \<lparr>name = nm, stack = STARTING_STACK, is_lost_match = False, hole_cards = [],
      current_bet_r1 = 0, current_bet_r2 = 0, final_round_bet = 0, has_folded = False,
      hand_score = 0, round_equities = []\<rparr>"

definition reset_round :: "player \<Rightarrow> player" where
  "reset_round p =
     p\<lparr>hole_cards := [], current_bet_r1 := 0, current_bet_r2 := 0, final_round_bet := 0,
       hand_score := 0, has_folded := False, round_equities := []\<rparr>"

section \<open>The match (main.py)\<close>

text \<open>One seat of a history entry, and the entry of one hand.\<close>

record seat_log =
  log_hole_cards :: "card list"
  log_final_score :: int
  log_folded :: bool
  log_final_bet :: rat
  log_equities :: "rat list"
  log_stack :: rat

record hand_log =
  log_seats :: "(nat \<times> seat_log) list"
  log_community_cards :: "card list"
  log_pot_final :: rat

definition snapshot :: "player \<Rightarrow> int \<Rightarrow> rat \<Rightarrow> seat_log" where
  "snapshot p score final_bet =
     \<lparr>log_hole_cards = hole_cards p, log_final_score = score, log_folded = has_folded p,
      log_final_bet = final_bet, log_equities = round_equities p, log_stack = stack p\<rparr>"

text \<open>
  The local variables of \<open>play_match\<close>. A variable keeps its value until the source
  assigns it again, as in Python; \<open>init_vars\<close> gives the ones not yet assigned a default.
  \<open>round2_active_indices\<close> is the same list as \<open>round1_post_fold_indices\<close>. The
  dictionaries \<open>r1_bets\<close> and \<open>r2_bets\<close> and the list \<open>current_stacks\<close> are only handed
  to the strategies and are left out.
\<close>

record vars =
  players :: "player list"
  match_history :: "hand_log list"
  no_of_wins :: "rat list"
  pot :: rat
  deck :: "card list"
  community_cards :: "card list"
  active_players_indices :: "nat list"
  round1_active_indices :: "nat list"
  round1_post_fold_indices :: "nat list"
  round2_active_indices :: "nat list"
  actual_win :: rat
  best_score :: int
  winners :: "nat list"
  round_history :: "(nat \<times> seat_log) list"
  total_win :: rat
  remaining_pot :: rat

text \<open>
  What the world outside the engine hands to one hand: the order \<open>random.shuffle\<close> leaves
  the deck in, the estimate \<open>calculate_multiplayer_equity\<close> returns for a round and a
  seat, and what the seat's strategy returns in each round (\<open>(action, val)\<close> in round 1,
  \<open>val\<close> in rounds 2 and 3).
\<close>

record hand_inputs =
  shuffled_deck :: "card list"
  win_prob :: "nat \<Rightarrow> nat \<Rightarrow> rat"
  strategy_round1 :: "nat \<Rightarrow> string \<times> rat"
  strategy_round2 :: "nat \<Rightarrow> rat"
  strategy_round3 :: "nat \<Rightarrow> rat"

text \<open>\<open>deck.pop()\<close> takes the last card and raises \<open>IndexError\<close> on an empty list.\<close>

definition pop :: "'a list \<Rightarrow> error + ('a \<times> 'a list)" where
  "pop xs = (if xs = [] then Inl IndexError else Inr (last xs, butlast xs))"

fun pop_n :: "nat \<Rightarrow> 'a list \<Rightarrow> error + ('a list \<times> 'a list)" where
  "pop_n 0 d = Inr ([], d)"
| "pop_n (Suc n) d =
     (case pop d of
        Inl e \<Rightarrow> Inl e
      | Inr (c, d1) \<Rightarrow>
          (case pop_n n d1 of Inl e \<Rightarrow> Inl e | Inr (cs, d2) \<Rightarrow> Inr (c # cs, d2)))"

fun for_each :: "('a \<Rightarrow> 's \<Rightarrow> error + 's) \<Rightarrow> 'a list \<Rightarrow> 's \<Rightarrow> error + 's" where
  "for_each f [] s = Inr s"
| "for_each f (x # xs) s =
     (case f x s of Inl e \<Rightarrow> Inl e | Inr s1 \<Rightarrow> for_each f xs s1)"

subsection \<open>Round 0: buy-ins and dealing\<close>

definition buy_in_step :: "nat \<Rightarrow> vars \<Rightarrow> error + vars" where
  "buy_in_step i v =
     (let p = reset_round (players v ! i) in
      if is_lost_match p then Inr (v\<lparr>players := (players v)[i := p]\<rparr>)
      else if stack p < BUY_IN then
        Inr (v\<lparr>players := (players v)[i := p\<lparr>stack := 0, is_lost_match := True\<rparr>],
               pot := pot v + stack p\<rparr>)
      else
        (case pop_n (Suc (Suc 0)) (deck v) of
           Inl e \<Rightarrow> Inl e
         | Inr (cs, d) \<Rightarrow>
             Inr (v\<lparr>players := (players v)[i := p\<lparr>stack := stack p - BUY_IN, hole_cards := cs\<rparr>],
                    pot := pot v + BUY_IN, deck := d,
                    active_players_indices := active_players_indices v @ [i]\<rparr>)))"

definition round0 :: "hand_inputs \<Rightarrow> vars \<Rightarrow> error + vars" where
  "round0 ins v0 =
     (case for_each buy_in_step [0..<length (players v0)]
             (v0\<lparr>pot := 0, deck := shuffled_deck ins, community_cards := [],
                 active_players_indices := []\<rparr>) of
        Inl e \<Rightarrow> Inl e
      | Inr v \<Rightarrow>
          (case pop_n (Suc (Suc (Suc (Suc (Suc 0))))) (deck v) of
             Inl e \<Rightarrow> Inl e
           | Inr (cs, d) \<Rightarrow> Inr (v\<lparr>community_cards := cs, deck := d\<rparr>)))"

subsection \<open>Round 1\<close>

definition r1_afford_step :: "nat \<Rightarrow> vars \<Rightarrow> vars" where
  "r1_afford_step idx v =
     (let p = players v ! idx in
      if stack p < 100 then
        v\<lparr>players := (players v)[idx := p\<lparr>stack := 0, is_lost_match := True\<rparr>],
          pot := pot v + stack p\<rparr>
      else v\<lparr>round1_active_indices := round1_active_indices v @ [idx]\<rparr>)"

definition r1_bet_step :: "hand_inputs \<Rightarrow> nat \<Rightarrow> vars \<Rightarrow> vars" where
  "r1_bet_step ins idx v =
     (let p = players v ! idx;
          equity = win_prob ins 1 idx;
          (action, val) = strategy_round1 ins idx
      in if action = ''fold'' then
           v\<lparr>players := (players v)[idx :=
                p\<lparr>has_folded := True, round_equities := round_equities p @ [equity]\<rparr>]\<rparr>
         else
           (let price = max 100 (min 300 val);
                price = min price (stack p)
            in v\<lparr>players := (players v)[idx :=
                    p\<lparr>current_bet_r1 := price, stack := stack p - price,
                      round_equities := round_equities p @ [equity]\<rparr>],
                 pot := pot v + price\<rparr>))"

definition round1 :: "hand_inputs \<Rightarrow> vars \<Rightarrow> vars" where
  "round1 ins v0 =
     (let v = fold r1_afford_step (active_players_indices v0) (v0\<lparr>round1_active_indices := []\<rparr>);
          v = fold (r1_bet_step ins) (round1_active_indices v) v
      in v\<lparr>round1_post_fold_indices :=
             filter (\<lambda>i. \<not> has_folded (players v ! i)) (round1_active_indices v)\<rparr>)"

subsection \<open>Early win and the hand without round-2 players\<close>

definition truncated_log :: "vars \<Rightarrow> hand_log" where
  "truncated_log v =
     \<lparr>log_seats = map (\<lambda>i. (i, snapshot (players v ! i) 7463 0)) [0..<length (players v)],
      log_community_cards = take 3 (community_cards v),
      log_pot_final = pot v\<rparr>"

definition early_win :: "vars \<Rightarrow> vars" where
  "early_win v0 =
     (let winner_idx = hd (round1_post_fold_indices v0);
          winner = players v0 ! winner_idx;
          winner_bet = current_bet_r1 winner;
          winning_cap = 4 * (BUY_IN + winner_bet);
          paid = min winning_cap (pot v0);
          v = v0\<lparr>players := (players v0)[winner_idx := winner\<lparr>stack := stack winner + paid\<rparr>],
                 no_of_wins := (no_of_wins v0)[winner_idx := no_of_wins v0 ! winner_idx + 1],
                 actual_win := paid\<rparr>
      in v\<lparr>match_history := match_history v @ [truncated_log v]\<rparr>)"

definition no_round2 :: "vars \<Rightarrow> vars" where
  "no_round2 v = v\<lparr>match_history := match_history v @ [truncated_log v]\<rparr>"

subsection \<open>Rounds 2 and 3\<close>

definition r2_bet_step :: "hand_inputs \<Rightarrow> nat \<Rightarrow> vars \<Rightarrow> vars" where
  "r2_bet_step ins idx v =
     (let p = players v ! idx;
          equity = win_prob ins 2 idx;
          val = strategy_round2 ins idx;
          min_p = current_bet_r1 p * (1 / 2);
          max_p = current_bet_r1 p * (3 / 2);
          price = max min_p (min max_p val);
          price = min price (stack p)
      in v\<lparr>players := (players v)[idx :=
              p\<lparr>current_bet_r2 := price, stack := stack p - price,
                round_equities := round_equities p @ [equity]\<rparr>],
           pot := pot v + price\<rparr>)"

definition r3_bet_step :: "hand_inputs \<Rightarrow> nat \<Rightarrow> vars \<Rightarrow> vars" where
  "r3_bet_step ins idx v =
     (let p = players v ! idx;
          equity = win_prob ins 3 idx;
          val = strategy_round3 ins idx;
          min_p = current_bet_r2 p * (3 / 4);
          max_p = current_bet_r2 p * (5 / 4);
          price = max min_p (min max_p val);
          price = min price (stack p)
      in v\<lparr>players := (players v)[idx :=
              p\<lparr>final_round_bet := price, stack := stack p - price,
                round_equities := round_equities p @ [equity]\<rparr>],
           pot := pot v + price\<rparr>)"

subsection \<open>Showdown and pot allocation\<close>

definition showdown_step :: "evaluator \<Rightarrow> nat \<Rightarrow> vars \<Rightarrow> vars" where
  "showdown_step ev idx v =
     (let p = players v ! idx in
      if \<not> has_folded p then
        (let score = evaluate_hand ev (hole_cards p) (community_cards v);
             p1 = p\<lparr>hand_score := score\<rparr>;
             v1 = v\<lparr>players := (players v)[idx := p1]\<rparr>;
             v2 = (if score < best_score v then v1\<lparr>best_score := score, winners := [idx]\<rparr>
                   else if score = best_score v then v1\<lparr>winners := winners v @ [idx]\<rparr>
                   else v1)
         in v2\<lparr>round_history :=
                 AList.update idx (snapshot p1 score (final_round_bet p1)) (round_history v)\<rparr>)
      else
        v\<lparr>round_history :=
            AList.update idx (snapshot p 0 (final_round_bet p)) (round_history v)\<rparr>)"

definition showdown :: "evaluator \<Rightarrow> vars \<Rightarrow> vars" where
  "showdown ev v =
     fold (showdown_step ev) (active_players_indices v)
       (v\<lparr>best_score := 7463, winners := [], round_history := []\<rparr>)"

definition pay_step :: "nat \<Rightarrow> rat \<Rightarrow> nat \<Rightarrow> vars \<Rightarrow> vars" where
  "pay_step num_winners winning_pot_share_max w v =
     (let winner = players v ! w;
          winning_cap = 4 * (BUY_IN + current_bet_r1 winner + current_bet_r2 winner
                               + final_round_bet winner);
          actual_win_for_winner = min winning_cap winning_pot_share_max
      in v\<lparr>no_of_wins := (no_of_wins v)[w := no_of_wins v ! w + 1 / of_nat num_winners],
           players := (players v)[w := winner\<lparr>stack := stack winner + actual_win_for_winner\<rparr>],
           total_win := total_win v + actual_win_for_winner\<rparr>)"

text \<open>Step 2, up to \<open>remaining_pot = pot - total_win\<close>.\<close>

definition pay_winners :: "vars \<Rightarrow> vars" where
  "pay_winners v0 =
     (let num_winners = length (winners v0);
          winning_pot_share_max = pot v0 / of_nat num_winners;
          v = fold (pay_step num_winners winning_pot_share_max) (winners v0)
                (v0\<lparr>total_win := 0\<rparr>)
      in v\<lparr>remaining_pot := pot v - total_win v\<rparr>)"

definition add_share :: "rat \<Rightarrow> nat \<Rightarrow> vars \<Rightarrow> vars" where
  "add_share share i v =
     v\<lparr>players := (players v)[i := (players v ! i)\<lparr>stack := stack (players v ! i) + share\<rparr>]\<rparr>"

text \<open>Step 3, the redistribution.\<close>

definition redistribute :: "vars \<Rightarrow> vars" where
  "redistribute v =
     (if remaining_pot v > 0 then
        (let recipients = round2_active_indices v in
         if recipients \<noteq> [] then
           fold (add_share (remaining_pot v / of_nat (length recipients))) recipients v
         else v)
      else v)"

definition allocate :: "vars \<Rightarrow> vars" where
  "allocate v0 =
     (let v = pay_winners v0;
          v = v\<lparr>match_history := match_history v @
                 [\<lparr>log_seats = round_history v, log_community_cards = community_cards v,
                   log_pot_final = pot v\<rparr>]\<rparr>
      in redistribute v)"

subsection \<open>One hand, and the loop over the hands\<close>

datatype hand_end = Halt | EarlyWin | NoRound2 | NoWinner | ShowdownPaid

text \<open>
  The hand from round 1 on. The test \<open>num_r3_players == 0\<close> before round 3 repeats the
  one before round 2 on the same list and can never hold there.
\<close>

definition play_rounds :: "evaluator \<Rightarrow> hand_inputs \<Rightarrow> vars \<Rightarrow> hand_end \<times> vars" where
  "play_rounds ev ins v0 =
     (let v1 = round1 ins v0 in
      if length (round1_post_fold_indices v1) = 1 then (EarlyWin, early_win v1)
      else
        (let v2 = v1\<lparr>round2_active_indices := round1_post_fold_indices v1\<rparr> in
         if length (round2_active_indices v2) = 0 then (NoRound2, no_round2 v2)
         else
           (let v3 = fold (r2_bet_step ins) (round2_active_indices v2) v2;
                v4 = fold (r3_bet_step ins) (round2_active_indices v3) v3;
                v5 = showdown ev v4
            in if winners v5 = [] then (NoWinner, v5) else (ShowdownPaid, allocate v5))))"

definition play_game :: "evaluator \<Rightarrow> hand_inputs \<Rightarrow> vars \<Rightarrow> error + hand_end \<times> vars" where
  "play_game ev ins v0 =
     (case round0 ins v0 of
        Inl e \<Rightarrow> Inl e
      | Inr v \<Rightarrow>
          if length (active_players_indices v) < 2 then Inr (Halt, v)
          else Inr (play_rounds ev ins v))"

text \<open>
  The loop \<open>for game_num in range(1, NUM_GAMES + 1)\<close>: \<open>Halt\<close> is the \<open>break\<close>, every
  other ending goes on with the next hand. \<open>ins g\<close> is what hand \<open>g\<close> receives.
\<close>

fun play_games ::
  "evaluator \<Rightarrow> (nat \<Rightarrow> hand_inputs) \<Rightarrow> nat list \<Rightarrow> vars \<Rightarrow> error + vars" where
  "play_games ev ins [] v = Inr v"
| "play_games ev ins (g # gs) v =
     (case play_game ev (ins g) v of
        Inl e \<Rightarrow> Inl e
      | Inr (e, v1) \<Rightarrow> if e = Halt then Inr v1 else play_games ev ins gs v1)"

definition init_vars :: vars where
  "init_vars =
     \<lparr>players = map new_player PLAYER_NAMES, match_history = [],
      no_of_wins = replicate (length PLAYER_NAMES) 0, pot = 0, deck = [],
      community_cards = [], active_players_indices = [], round1_active_indices = [],
      round1_post_fold_indices = [], round2_active_indices = [], actual_win = 0,
      best_score = 0, winners = [], round_history = [], total_win = 0, remaining_pot = 0\<rparr>"

definition play_match :: "evaluator \<Rightarrow> (nat \<Rightarrow> hand_inputs) \<Rightarrow> error + vars" where
  "play_match ev ins = play_games ev ins [1..<NUM_GAMES + 1] init_vars"

section \<open>Notions used in the proofs\<close>

text \<open>What a trial adds to \<open>wins\<close>, given the hero's score and the best opponent score.\<close>

definition contribution :: "int \<times> int \<Rightarrow> rat" where
  "contribution sc =
     (if fst sc < snd sc then 1 else if fst sc = snd sc then 1 / 2 else 0)"

text \<open>The money on the table that is in stacks.\<close>

definition total_stacks :: "player list \<Rightarrow> rat" where
  "total_stacks ps = sum_list (map stack ps)"

text \<open>
  While bets are collected, the stacks and the pot together hold a fixed amount \<open>c\<close>, and
  the number of seats is \<open>n\<close>.
\<close>

definition conserved :: "nat \<Rightarrow> rat \<Rightarrow> vars \<Rightarrow> bool" where
  "conserved n c v \<longleftrightarrow> length (players v) = n \<and> total_stacks (players v) + pot v = c"

text \<open>
  What every step of a hand before the payout keeps: the amount of money, the seats that the
  indices of the hand refer to, the history and the win counters of the match.
\<close>

definition hand_wf :: "nat \<Rightarrow> rat \<Rightarrow> hand_log list \<Rightarrow> rat list \<Rightarrow> vars \<Rightarrow> bool" where
  "hand_wf n c h w v \<longleftrightarrow>
     conserved n c v \<and> set (active_players_indices v) \<subseteq> {..<n}
     \<and> match_history v = h \<and> no_of_wins v = w"

text \<open>The winning cap of a player at the showdown.\<close>

definition cap_of :: "player \<Rightarrow> rat" where
  "cap_of p = 4 * (BUY_IN + current_bet_r1 p + current_bet_r2 p + final_round_bet p)"

text \<open>
  A player whose stack and bets are not negative, and a table where every player is such a
  player and the pot is not negative.
\<close>

definition good_player :: "player \<Rightarrow> bool" where
  "good_player p \<longleftrightarrow>
     0 \<le> stack p \<and> 0 \<le> current_bet_r1 p \<and> 0 \<le> current_bet_r2 p \<and> 0 \<le> final_round_bet p"

definition solvent :: "vars \<Rightarrow> bool" where
  "solvent v \<longleftrightarrow> list_all good_player (players v) \<and> 0 \<le> pot v"


text \<open>
  A player who can post the buy-in of a hand: not eliminated, with at least \<open>BUY_IN\<close> in
  the stack (the test of the buy-in loop).
\<close>

definition funded :: "player \<Rightarrow> bool" where
  "funded p \<longleftrightarrow> \<not> is_lost_match p \<and> BUY_IN \<le> stack p"

text \<open>
  What the buy-in loop leaves of a player \<open>p\<close>, as \<open>q\<close>: a funded player has paid the
  buy-in; any other player is eliminated, with the stack forfeited to the pot unless the
  player was eliminated before.
\<close>

definition after_buy_in :: "player \<Rightarrow> player \<Rightarrow> bool" where
  "after_buy_in p q \<longleftrightarrow>
     (if funded p then stack q = stack p - BUY_IN \<and> \<not> is_lost_match q
      else is_lost_match q \<and> stack q = (if is_lost_match p then stack p else 0))"

section \<open>Concrete hands\<close>

text \<open>
  The five seats of \<open>play_match\<close> with given stacks, before a hand.
\<close>

definition with_stacks :: "rat list \<Rightarrow> vars" where
  "with_stacks ss =
     init_vars\<lparr>players := map (\<lambda>(p, s). p\<lparr>stack := s\<rparr>) (zip (players init_vars) ss)\<rparr>"

text \<open>
  A scorer for the concrete hands below. It agrees with \<open>treys\<close> where the hands below
  depend on it: the royal flush in spades scores 1, the best score, and every other five
  cards score worse (here the worst real score, 7462). In the hands below a player either
  holds the royal flush among the seven cards or does not, so \<open>evaluate_best_hand\<close> is 1
  for exactly the players for whom it is 1 with \<open>treys\<close>.
\<close>

definition royal :: "card list" where
  "royal = [''As'', ''Ks'', ''Qs'', ''Js'', ''Ts'']"

definition ev_royal :: evaluator where
  "ev_royal cs = (if list_all (\<lambda>c. c \<in> set royal) cs then Some 1 else Some 7462)"

text \<open>
  A shuffled deck that deals \<open>dealt\<close> in that order: \<open>deck.pop()\<close> takes from the end.
\<close>

definition stack_deck :: "card list \<Rightarrow> card list" where
  "stack_deck dealt = filter (\<lambda>c. c \<notin> set dealt) create_deck @ rev dealt"

text \<open>Five pairs of hole cards, then the royal flush as the community cards.\<close>

definition deck_royal_board :: "card list" where
  "deck_royal_board =
     stack_deck ([''2h'', ''3h'', ''4h'', ''5h'', ''6h'', ''7h'', ''8h'', ''2d'', ''3d'', ''4d'']
                 @ royal)"

text \<open>
  The first seat holds the ace of spades, the community cards are the other four cards of
  the royal flush and the two of clubs: the first seat alone has the royal flush.
\<close>

definition deck_royal_seat0 :: "card list" where
  "deck_royal_seat0 =
     stack_deck [''As'', ''2h'', ''3h'', ''4h'', ''5h'', ''6h'', ''7h'', ''8h'', ''3d'', ''4d'',
                 ''Ks'', ''Qs'', ''Js'', ''Ts'', ''2c'']"

text \<open>Every strategy bets; the raw values are 100 in every round.\<close>

definition ins_call :: hand_inputs where
  "ins_call =
     \<lparr>shuffled_deck = deck_royal_board, win_prob = (\<lambda>r i. 1 / 5),
      strategy_round1 = (\<lambda>i. (''bet'', 100)), strategy_round2 = (\<lambda>i. 100),
      strategy_round3 = (\<lambda>i. 100)\<rparr>"

text \<open>Every strategy bets; the raw values are 150 in round 1 and 100 afterwards.\<close>

definition ins_raise :: hand_inputs where
  "ins_raise =
     \<lparr>shuffled_deck = deck_royal_seat0, win_prob = (\<lambda>r i. 1 / 5),
      strategy_round1 = (\<lambda>i. (''bet'', 150)), strategy_round2 = (\<lambda>i. 100),
      strategy_round3 = (\<lambda>i. 100)\<rparr>"

text \<open>
  Two seats in the middle of a hand: the first has 50 left after betting 150 and 40, the
  second has 900 left after betting 100 three times; the pot to share is 3000 and both are
  winners.
\<close>

definition table_two :: vars where
  "table_two =
     init_vars\<lparr>players :=
        [(new_player ''Player A'')\<lparr>stack := 50, current_bet_r1 := 150, current_bet_r2 := 40\<rparr>,
         (new_player ''Player B'')\<lparr>stack := 900, current_bet_r1 := 100, current_bet_r2 := 100,
                                  final_round_bet := 100\<rparr>],
       pot := 3000, winners := [0, 1]\<rparr>"


text \<open>
  A scorer and a shuffle for a concrete run of the estimator. Five cards with the ace of
  spades score 1, five cards with the ace of hearts or of diamonds (and not that of spades)
  score 2, any other five cards score 3. The first shuffle reverses the pool, every later
  one moves its first card to the end.
\<close>

definition ev_aces :: evaluator where
  "ev_aces cs =
     Some (if ''As'' \<in> set cs then 1 else if ''Ah'' \<in> set cs \<or> ''Ad'' \<in> set cs then 2 else 3)"

definition turn_pool :: shuffler where
  "turn_pool t d = (if t = 0 then rev d else rotate1 d)"
section \<open>The equity estimator: proofs\<close>

lemma fold_trial_step_wins:
  "snd (fold (trial_step ev sh hero board k) ts (d, w)) =
     w + sum_list (map (\<lambda>d. contribution (trial_scores ev hero board k d))
                       (filter (can_deal board k) (trial_decks sh d ts)))"
  by (induction ts arbitrary: d w)
     (simp_all add: trial_step_def Let_def contribution_def split: prod.splits)

lemma length_trial_decks: "length (trial_decks sh d ts) = length ts"
  by (induction ts arbitrary: d) simp_all

lemma trial_decks_same_length:
  assumes "\<forall>t d. length (sh t d) = length d"
  shows "\<forall>x \<in> set (trial_decks sh d ts). length x = length d"
  using assms by (induction ts arbitrary: d) auto

lemma can_deal_length:
  "length d1 = length d2 \<Longrightarrow> can_deal board k d1 = can_deal board k d2"
  by (simp add: can_deal_def)

lemma filter_can_deal_all_or_none:
  assumes "\<forall>t d. length (sh t d) = length d"
  shows "filter (can_deal board k) (trial_decks sh d ts) =
           (if can_deal board k d then trial_decks sh d ts else [])"
proof -
  have "\<forall>x \<in> set (trial_decks sh d ts). can_deal board k x = can_deal board k d"
    using trial_decks_same_length [OF assms] can_deal_length by blast
  then show ?thesis by (auto simp: filter_empty_conv)
qed


lemma take_in_combinations: "k \<le> length xs \<Longrightarrow> take k xs \<in> set (combinations xs k)"
proof (induction xs k rule: combinations.induct)
  case (3 x xs k)
  then show ?case by simp
qed simp_all

lemma best_step_le: "best_step ev c b \<le> b"
  by (simp add: best_step_def split: option.splits)

lemma fold_best_step_le: "fold (best_step ev) cs b \<le> b"
proof (induction cs arbitrary: b)
  case (Cons c cs)
  have "fold (best_step ev) cs (best_step ev c b) \<le> best_step ev c b" by (rule Cons.IH)
  also have "\<dots> \<le> b" by (rule best_step_le)
  finally show ?case by simp
qed simp

lemma fold_best_step_member:
  "c \<in> set cs \<Longrightarrow> ev c = Some s \<Longrightarrow> fold (best_step ev) cs b \<le> s"
proof (induction cs arbitrary: b)
  case (Cons a cs)
  show ?case
  proof (cases "a = c")
    case True
    have "fold (best_step ev) cs (best_step ev c b) \<le> best_step ev c b"
      by (rule fold_best_step_le)
    also have "\<dots> \<le> s" using Cons.prems(2) by (simp add: best_step_def)
    finally show ?thesis using True by simp
  next
    case False
    then show ?thesis using Cons by simp
  qed
qed simp

lemma evaluate_best_hand_le_first:
  assumes "5 \<le> length seven" "ev (take 5 seven) = Some s"
  shows "evaluate_best_hand ev seven \<le> s"
proof -
  have five: "Suc (Suc (Suc (Suc (Suc 0)))) = 5" by simp
  have "take 5 seven \<in> set (combinations seven 5)"
    using assms(1) by (rule take_in_combinations)
  then show ?thesis
    unfolding evaluate_best_hand_def five using assms(2) by (rule fold_best_step_member)
qed

lemma distinct_get_clean_deck: "distinct get_clean_deck"
  by (simp add: get_clean_deck_def RANKS_def SUITS_def)

lemma length_get_clean_deck: "length get_clean_deck = 52"
  by (simp add: get_clean_deck_def RANKS_def SUITS_def)

lemma unknown_cards_props:
  "distinct (unknown_cards hero board)"
  "set (unknown_cards hero board) \<subseteq> set get_clean_deck"
  "set (unknown_cards hero board) \<inter> set (hero @ board) = {}"
  by (auto simp: unknown_cards_def distinct_get_clean_deck)

lemma length_unknown_cards:
  "52 \<le> length (unknown_cards hero board) + length (hero @ board)"
proof -
  let ?known = "filter (\<lambda>c. c \<in> set (hero @ board)) get_clean_deck"
  have "distinct ?known" by (simp add: distinct_get_clean_deck)
  then have "length ?known = card (set ?known)" by (metis distinct_card)
  also have "\<dots> \<le> card (set (hero @ board))" by (intro card_mono) auto
  also have "\<dots> \<le> length (hero @ board)" by (rule card_length)
  finally have k: "length ?known \<le> length (hero @ board)" .
  have "length ?known + length (unknown_cards hero board) = length get_clean_deck"
    unfolding unknown_cards_def by (rule sum_length_filter_compl)
  then show ?thesis using k by (simp add: length_get_clean_deck)
qed

lemma sum_list_ones: "sum_list (map (\<lambda>x. 1::rat) xs) = of_nat (length xs)"
  by (induction xs) simp_all

lemma trial_decks_same_mset:
  assumes "\<forall>t d. mset (sh t d) = mset d"
  shows "\<forall>x \<in> set (trial_decks sh d ts). mset x = mset d"
  using assms by (induction ts arbitrary: d) auto

lemma py_slice_prefix: "0 \<le> k \<Longrightarrow> py_slice 0 k xs = take (nat k) xs"
  by (simp add: py_slice_def Let_def min_def)

lemma lone_hero_trial:
  assumes ev: "\<forall>cs. length cs = 5 \<and> distinct cs \<and> set cs \<subseteq> set get_clean_deck
                 \<longrightarrow> (\<exists>s. ev cs = Some s \<and> s < 7463)"
    and hero: "length hero = 2"
    and dst: "distinct (hero @ board)"
    and sub: "set (hero @ board) \<subseteq> set get_clean_deck"
    and board: "length board \<le> 5"
    and d: "mset d = mset (unknown_cards hero board)"
  shows "can_deal board 0 d \<and> contribution (trial_scores ev hero board 0 d) = 1"
proof -
  have len_d: "length d = length (unknown_cards hero board)"
    using d by (metis size_mset)
  have set_d: "set d = set (unknown_cards hero board)"
    using d by (metis set_mset_mset)
  have dist_d: "distinct d"
    using d unknown_cards_props(1) by (metis mset_eq_imp_distinct_iff)
  have big: "45 \<le> length d"
    using length_unknown_cards [of hero board] hero board len_d by simp
  have cd: "can_deal board 0 d"
    using big by (simp add: can_deal_def)
  let ?runout = "take (5 - length board) d"
  let ?seven = "hero @ board @ ?runout"
  have run: "py_slice 0 (5 - int (length board)) d = ?runout"
    using board by (simp add: py_slice_prefix nat_diff_distrib')
  have len7: "5 \<le> length ?seven" using big hero board by simp
  have dist7: "distinct ?seven"
    using dst dist_d set_d unknown_cards_props(3) [of hero board]
    by (auto dest: in_set_takeD)
  have sub7: "set ?seven \<subseteq> set get_clean_deck"
    using sub set_d unknown_cards_props(2) [of hero board]
    by (auto dest: in_set_takeD)
  have "length (take 5 ?seven) = 5" using len7 by simp
  moreover have "distinct (take 5 ?seven)" using dist7 by (rule distinct_take)
  moreover have "set (take 5 ?seven) \<subseteq> set get_clean_deck"
    using sub7 set_take_subset by fast
  ultimately obtain s where s: "ev (take 5 ?seven) = Some s" "s < 7463"
    using ev by blast
  have "evaluate_best_hand ev ?seven \<le> s"
    using len7 s(1) by (rule evaluate_best_hand_le_first)
  then have "evaluate_best_hand ev ?seven < 7463" using s(2) by simp
  then have "contribution (trial_scores ev hero board 0 d) = 1"
    by (simp add: trial_scores_def Let_def run contribution_def)
  with cd show ?thesis by simp
qed


subsection \<open>The source against the specification's words\<close>

lemma filter_no_empty_hand:
  "filter (\<lambda>c. c = []) (subseqs xs) = [[]]"
  by (induction xs) (simp_all add: Let_def filter_map comp_def)

lemma combinations_subseqs:
  "combinations xs k = filter (\<lambda>c. length c = k) (subseqs xs)"
proof (induction xs k rule: combinations.induct)
  case (1 xs)
  then show ?case by (simp add: filter_no_empty_hand)
next
  case (2 k)
  then show ?case by simp
next
  case (3 x xs k)
  then show ?case by (simp add: Let_def filter_map comp_def)
qed

lemma fold_best_step_min:
  "fold (best_step ev) cs b = fold min (List.map_filter ev cs) b"
proof (induction cs arbitrary: b)
  case (Cons c cs)
  then show ?case
    by (cases "ev c") (simp_all add: best_step_def List.map_filter_simps min_def)
qed (simp add: List.map_filter_simps)

lemma evaluate_best_hand_spec: "evaluate_best_hand ev cards = best_of_seven ev cards"
proof -
  have five: "Suc (Suc (Suc (Suc (Suc 0)))) = 5" by simp
  show ?thesis
    unfolding evaluate_best_hand_def best_of_seven_def oracle_scores_def five_card_hands_def
      five Min.set_eq_fold
    by (simp add: fold_best_step_min combinations_subseqs)
qed

lemma py_slice_pair:
  "py_slice (int a) (int a + 2) xs = take 2 (drop a xs)"
  by (cases "a < length xs"; cases "a + 2 \<le> length xs")
     (auto simp: py_slice_def Let_def min_def nat_diff_distrib')

lemma can_deal_spec:
  "length board \<le> 5 \<Longrightarrow> can_deal board (int n) d = spec_can_deal board n d"
  unfolding can_deal_def spec_can_deal_def by (simp add: of_nat_diff) linarith

lemma unknown_cards_spec: "unknown_cards hero board = spec_pool hero board"
  by (simp add: unknown_cards_def spec_pool_def)

lemma trial_scores_spec:
  assumes board: "length board \<le> 5"
  shows "trial_scores ev hero board (int n) d =
           (best_of_seven ev (hero @ board @ take (5 - length board) d),
            if n = 0 then 7463
            else Min (set (map (\<lambda>k. best_of_seven ev
                                    (take 2 (drop (2 * k) (drop (5 - length board) d))
                                      @ board @ take (5 - length board) d))
                            [0..<n])))"
proof -
  let ?m = "5 - length board"
  have needed: "5 - int (length board) = int ?m" using board by simp
  have run: "py_slice 0 (int ?m) d = take ?m d" by (simp add: py_slice_prefix)
  have hole: "py_slice (int ?m + 2 * int k) (int ?m + 2 * int k + 2) d
                = take 2 (drop (2 * k) (drop ?m d))" for k
    using py_slice_pair [of "?m + 2 * k" d] by (simp add: add.commute)
  let ?opp = "map (\<lambda>k. best_of_seven ev (take 2 (drop (2 * k) (drop ?m d)) @ board @ take ?m d))
                  [0..<n]"
  have "?opp \<noteq> [] \<Longrightarrow> min_list ?opp = Min (set ?opp)" by (rule min_list_Min)
  then show ?thesis
    unfolding trial_scores_def needed
    by (simp add: Let_def run hole evaluate_best_hand_spec comp_def)
qed

lemma lone_hero_scores:
  assumes scored: "\<forall>cs. length cs = 5 \<longrightarrow> (\<exists>s. ev cs = Some s \<and> s < 7463)"
    and deal: "spec_can_deal board 0 d"
  shows "best_of_seven ev (hero @ board @ take (5 - length board) d) < 7463"
proof -
  let ?seven = "hero @ board @ take (5 - length board) d"
  have len: "5 \<le> length ?seven" using deal by (simp add: spec_can_deal_def)
  then have "length (take 5 ?seven) = 5" by simp
  then obtain s where s: "ev (take 5 ?seven) = Some s" "s < 7463" using scored by blast
  have "evaluate_best_hand ev ?seven \<le> s" using len s(1) by (rule evaluate_best_hand_le_first)
  then show ?thesis using s(2) by (simp add: evaluate_best_hand_spec)
qed

lemma trial_contribution_spec:
  assumes board: "length board \<le> 5"
    and scored: "n = 0 \<longrightarrow> (\<forall>cs. length cs = 5 \<longrightarrow> (\<exists>s. ev cs = Some s \<and> s < 7463))"
    and deal: "spec_can_deal board n d"
  shows "contribution (trial_scores ev hero board (int n) d) = spec_trial ev hero board n d"
proof (cases "n = 0")
  case True
  then have "best_of_seven ev (hero @ board @ take (5 - length board) d) < 7463"
    using lone_hero_scores scored deal by blast
  moreover have "trial_scores ev hero board 0 d
                   = (best_of_seven ev (hero @ board @ take (5 - length board) d), 7463)"
    using trial_scores_spec [OF board, of ev hero 0 d] by simp
  ultimately show ?thesis
    using True by (simp add: contribution_def spec_trial_def)
next
  case False
  let ?h = "best_of_seven ev (hero @ board @ take (5 - length board) d)"
  let ?b = "Min (set (map (\<lambda>k. best_of_seven ev
                                    (take 2 (drop (2 * k) (drop (5 - length board) d))
                                      @ board @ take (5 - length board) d))
                          [0..<n]))"
  have ts: "trial_scores ev hero board (int n) d = (?h, ?b)"
    using trial_scores_spec [OF board, of ev hero n d] False by (simp only: if_False)
  have st: "spec_trial ev hero board n d = contribution (?h, ?b)"
    unfolding spec_trial_def contribution_def Let_def map_map comp_def fst_conv snd_conv
    using False by (simp only: if_False)
  show ?thesis unfolding ts st ..
qed

lemma estimate_of_source:
  assumes "\<forall>t d. length (sh t d) = length d"
  shows "calculate_multiplayer_equity ev sh hero board num_players iterations
           = (let run = filter (can_deal board (num_players - 1))
                          (trial_decks sh (unknown_cards hero board) [0..<nat iterations])
              in if run = [] then 0
                 else sum_list (map (\<lambda>d. contribution
                                       (trial_scores ev hero board (num_players - 1) d)) run)
                        / of_nat (length run))"
proof -
  let ?pool = "unknown_cards hero board"
  let ?k = "num_players - 1"
  let ?ds = "trial_decks sh ?pool [0..<nat iterations]"
  let ?run = "filter (can_deal board ?k) ?ds"
  let ?sum = "sum_list (map (\<lambda>d. contribution (trial_scores ev hero board ?k d)) ?run)"
  have calc: "calculate_multiplayer_equity ev sh hero board num_players iterations
                = (if iterations = 0 then 0 else ?sum / of_int iterations)"
    by (simp add: calculate_multiplayer_equity_def Let_def fold_trial_step_wins)
  have run: "?run = (if can_deal board ?k ?pool then ?ds else [])"
    by (rule filter_can_deal_all_or_none [OF assms])
  have len: "length ?ds = nat iterations" by (simp add: length_trial_decks)
  show ?thesis
  proof (cases "0 < iterations \<and> can_deal board ?k ?pool")
    case True
    then have r: "?run = ?ds" using run by simp
    have ne: "?ds \<noteq> []" using len True by auto
    have "of_nat (length ?run) = (of_int iterations :: rat)"
      using r len True by simp
    then show ?thesis
      using True r ne unfolding calc Let_def by auto
  next
    case False
    then have "?run = []"
      using run len by (cases "can_deal board ?k ?pool") auto
    then show ?thesis
      unfolding calc Let_def by simp
  qed
qed

text \<open>
  Claim C6. For a board of at most 5 cards and at least one player, the value the source
  returns is the estimate as the specification words it: the sum of the trial contributions
  (1 for a hero score strictly below the best opponent score, a half for a tie, 0
  otherwise, the scores being the best 5-of-7 scores of the oracle on the cards the trial
  draws) over the number of trials actually run, and 0 when no trial ran, in particular
  when none was requested. A trial that cannot be dealt is skipped: the estimator is a
  total function, and such a trial changes nothing but the order of the pool. A shuffle
  keeps the length of the pool. With no opponent the specification counts a full win; the
  source does so when the oracle gives a real score (below the sentinel) to any five
  cards, which is assumed for that case only.
\<close>

theorem equity_is_mean_of_run_trials:
  assumes sh: "\<forall>t d. length (shuffle t d) = length d"
    and board: "length current_board \<le> 5"
    and n: "1 \<le> num_players"
    and scored: "num_players = 1 \<longrightarrow>
                   (\<forall>cs. length cs = 5 \<longrightarrow> (\<exists>s. ev cs = Some s \<and> s < 7463))"
  shows "calculate_multiplayer_equity ev shuffle hero_hand current_board num_players iterations
           = spec_equity ev shuffle hero_hand current_board num_players iterations
         \<and> (iterations \<le> 0
              \<or> spec_trials_run shuffle hero_hand current_board num_players iterations = []
            \<longrightarrow> calculate_multiplayer_equity ev shuffle hero_hand current_board num_players
                  iterations = 0)"
proof -
  let ?n = "nat (num_players - 1)"
  let ?ds = "trial_decks shuffle (spec_pool hero_hand current_board) [0..<nat iterations]"
  let ?run = "spec_trials_run shuffle hero_hand current_board num_players iterations"
  have k: "int ?n = num_players - 1" using n by simp
  have cd: "can_deal current_board (num_players - 1) = spec_can_deal current_board ?n"
  proof
    fix d
    show "can_deal current_board (num_players - 1) d = spec_can_deal current_board ?n d"
      using can_deal_spec [OF board, of ?n d] by (simp only: k)
  qed
  have run: "filter (can_deal current_board (num_players - 1))
               (trial_decks shuffle (unknown_cards hero_hand current_board) [0..<nat iterations])
             = ?run"
    by (simp add: cd unknown_cards_spec spec_trials_run_def)
  have o: "?n = 0 \<longrightarrow> (\<forall>cs. length cs = 5 \<longrightarrow> (\<exists>s. ev cs = Some s \<and> s < 7463))"
    using scored n by auto
  have each: "\<forall>d \<in> set ?run.
                contribution (trial_scores ev hero_hand current_board (num_players - 1) d)
                  = spec_trial ev hero_hand current_board ?n d"
  proof
    fix d assume "d \<in> set ?run"
    then have "spec_can_deal current_board ?n d" by (simp add: spec_trials_run_def)
    then have "contribution (trial_scores ev hero_hand current_board (int ?n) d)
                 = spec_trial ev hero_hand current_board ?n d"
      using trial_contribution_spec [OF board o] by blast
    then show "contribution (trial_scores ev hero_hand current_board (num_players - 1) d)
                 = spec_trial ev hero_hand current_board ?n d"
      by (simp only: k)
  qed
  then have sums: "map (\<lambda>d. contribution
                              (trial_scores ev hero_hand current_board (num_players - 1) d)) ?run
                   = map (spec_trial ev hero_hand current_board ?n) ?run"
    by simp
  have "calculate_multiplayer_equity ev shuffle hero_hand current_board num_players iterations
          = (if ?run = [] then 0
             else sum_list (map (\<lambda>d. contribution
                     (trial_scores ev hero_hand current_board (num_players - 1) d)) ?run)
                    / of_nat (length ?run))"
    by (simp only: estimate_of_source [OF sh] Let_def run)
  also have "\<dots> = spec_equity ev shuffle hero_hand current_board num_players iterations"
    by (simp only: spec_equity_def Let_def sums)
  finally have eq:
    "calculate_multiplayer_equity ev shuffle hero_hand current_board num_players iterations
       = spec_equity ev shuffle hero_hand current_board num_players iterations" .
  have "iterations \<le> 0 \<Longrightarrow> ?run = []" by (simp add: spec_trials_run_def)
  then have "iterations \<le> 0 \<or> ?run = [] \<longrightarrow>
               spec_equity ev shuffle hero_hand current_board num_players iterations = 0"
    by (auto simp: spec_equity_def)
  then show ?thesis using eq by simp
qed

theorem equity_is_mean_of_run_trials_witness:
  "spec_equity ev_aces turn_pool [''Ah'', ''Kh''] [''2c'', ''7d'', ''9h'', ''Jc'', ''3s''] 2 4
     = 3 / 8
   \<and> calculate_multiplayer_equity ev_aces turn_pool [''Ah'', ''Kh'']
       [''2c'', ''7d'', ''9h'', ''Jc'', ''3s''] 2 4 = 3 / 8
   \<and> map (spec_trial ev_aces [''Ah'', ''Kh''] [''2c'', ''7d'', ''9h'', ''Jc'', ''3s''] 1)
       (spec_trials_run turn_pool [''Ah'', ''Kh''] [''2c'', ''7d'', ''9h'', ''Jc'', ''3s''] 2 4)
     = [0, 0, 1 / 2, 1]"
proof -
  let ?hero = "[''Ah'', ''Kh'']"
  let ?board = "[''2c'', ''7d'', ''9h'', ''Jc'', ''3s'']"
  have source: "calculate_multiplayer_equity ev_aces turn_pool ?hero ?board 2 4 = 3 / 8"
    by code_simp
  have trials: "map (spec_trial ev_aces ?hero ?board 1) (spec_trials_run turn_pool ?hero ?board 2 4)
                  = [0, 0, 1 / 2, 1]"
    by code_simp
  have keeps: "\<forall>t d. length (turn_pool t d) = length d" by (simp add: turn_pool_def)
  have "calculate_multiplayer_equity ev_aces turn_pool ?hero ?board 2 4
          = spec_equity ev_aces turn_pool ?hero ?board 2 4"
    using equity_is_mean_of_run_trials [where shuffle = turn_pool and current_board = ?board
            and num_players = 2 and ev = ev_aces and hero_hand = ?hero and iterations = 4]
          keeps
    by simp
  then show ?thesis using source trials by simp
qed

text \<open>
  Claim C9. With no opponent (\<open>num_players = 1\<close>) and at least one trial requested the
  estimate is exactly 1, for two hole cards and a board of 0, 3, 4 or 5 cards that are
  distinct cards of the deck. The scorer is assumed to do what \<open>treys\<close> does on five
  distinct cards of the deck: return a score below the sentinel 7463; the shuffle is
  assumed to permute the pool.
\<close>

theorem equity_without_opponents:
  assumes ev: "\<forall>cs. length cs = 5 \<and> distinct cs \<and> set cs \<subseteq> set get_clean_deck
                 \<longrightarrow> (\<exists>s. ev cs = Some s \<and> s < 7463)"
    and sh: "\<forall>t d. mset (shuffle t d) = mset d"
    and hero: "length hero_hand = 2"
    and dst: "distinct (hero_hand @ current_board)"
    and sub: "set (hero_hand @ current_board) \<subseteq> set get_clean_deck"
    and board: "length current_board \<in> {0, 3, 4, 5}"
    and it: "1 \<le> iterations"
  shows "calculate_multiplayer_equity ev shuffle hero_hand current_board 1 iterations = 1"
proof -
  let ?pool = "unknown_cards hero_hand current_board"
  let ?ds = "trial_decks shuffle ?pool [0..<nat iterations]"
  have b5: "length current_board \<le> 5" using board by auto
  have each: "\<forall>d \<in> set ?ds. can_deal current_board 0 d
                \<and> contribution (trial_scores ev hero_hand current_board 0 d) = 1"
    using trial_decks_same_mset [OF sh, of ?pool "[0..<nat iterations]"]
          lone_hero_trial [OF ev hero dst sub b5] by blast
  then have run: "filter (can_deal current_board 0) ?ds = ?ds" by simp
  have "map (\<lambda>d. contribution (trial_scores ev hero_hand current_board 0 d)) ?ds
          = map (\<lambda>d. 1) ?ds"
    using each by simp
  then have "sum_list (map (\<lambda>d. contribution (trial_scores ev hero_hand current_board 0 d)) ?ds)
          = of_nat (length ?ds)"
    by (simp only: sum_list_ones)
  then have wins: "snd (fold (trial_step ev shuffle hero_hand current_board 0)
                     [0..<nat iterations] (?pool, 0)) = of_int iterations"
    using it by (simp add: fold_trial_step_wins run length_trial_decks)
  show ?thesis
    using it by (simp add: calculate_multiplayer_equity_def Let_def wins)
qed


theorem equity_without_opponents_witness:
  "calculate_multiplayer_equity (\<lambda>cs. Some 1) (\<lambda>t d. rev d) [''As'', ''Ah''] [''2c'', ''7d'', ''9h''] 1 3 = 1"
  using equity_without_opponents [where ev = "\<lambda>cs. Some 1" and shuffle = "\<lambda>t d. rev d"
          and hero_hand = "[''As'', ''Ah'']" and current_board = "[''2c'', ''7d'', ''9h'']"
          and iterations = 3]
  by (simp add: get_clean_deck_def RANKS_def SUITS_def)

section \<open>The hand: invariants of the rounds\<close>

lemma total_stacks_update:
  "i < length ps \<Longrightarrow> total_stacks (ps[i := p]) = total_stacks ps - stack (ps ! i) + stack p"
  unfolding total_stacks_def
proof (induction ps arbitrary: i)
  case (Cons a ps)
  then show ?case by (cases i) simp_all
qed simp

lemma fold_invariant:
  assumes "I s" and "\<And>x s. x \<in> set xs \<Longrightarrow> I s \<Longrightarrow> I (f x s)"
  shows "I (fold f xs s)"
  using assms by (induction xs arbitrary: s) simp_all

lemma for_each_invariant:
  assumes "for_each f xs s = Inr s'" and "I s"
    and "\<And>x s s1. x \<in> set xs \<Longrightarrow> I s \<Longrightarrow> f x s = Inr s1 \<Longrightarrow> I s1"
  shows "I s'"
  using assms
proof (induction xs arbitrary: s)
  case (Cons x xs)
  from Cons.prems(1) obtain s1 where s1: "f x s = Inr s1" "for_each f xs s1 = Inr s'"
    by (auto split: sum.splits)
  have "I s1" using Cons.prems(2,3) s1(1) by (meson list.set_intros(1))
  then show ?case using Cons.IH [OF s1(2)] Cons.prems(3) by (meson list.set_intros(2))
qed simp

lemma pop_n_length: "pop_n k d = Inr (cs, d1) \<Longrightarrow> length cs = k \<and> length d = k + length d1"
proof (induction k arbitrary: d cs d1)
  case (Suc k)
  from Suc.prems obtain c cs1 d0 where
    p: "pop d = Inr (c, d0)" and r: "pop_n k d0 = Inr (cs1, d1)" and cs: "cs = c # cs1"
    by (auto split: sum.splits prod.splits)
  from p have "length d = Suc (length d0)"
    by (auto simp: pop_def split: if_splits)
  then show ?case using Suc.IH [OF r] cs by simp
qed simp

lemma buy_in_step_conserved:
  "i < n \<Longrightarrow> conserved n c v \<Longrightarrow> buy_in_step i v = Inr v1 \<Longrightarrow> conserved n c v1"
  by (auto simp: conserved_def buy_in_step_def Let_def total_stacks_update reset_round_def
           split: if_splits sum.splits prod.splits)

lemma r1_afford_step_conserved:
  "idx < n \<Longrightarrow> conserved n c v \<Longrightarrow> conserved n c (r1_afford_step idx v)"
  by (auto simp: conserved_def r1_afford_step_def Let_def total_stacks_update)

lemma r1_bet_step_conserved:
  "idx < n \<Longrightarrow> conserved n c v \<Longrightarrow> conserved n c (r1_bet_step ins idx v)"
  by (auto simp: conserved_def r1_bet_step_def Let_def total_stacks_update split: prod.splits)

lemma r2_bet_step_conserved:
  "idx < n \<Longrightarrow> conserved n c v \<Longrightarrow> conserved n c (r2_bet_step ins idx v)"
  by (auto simp: conserved_def r2_bet_step_def Let_def total_stacks_update)

lemma r3_bet_step_conserved:
  "idx < n \<Longrightarrow> conserved n c v \<Longrightarrow> conserved n c (r3_bet_step ins idx v)"
  by (auto simp: conserved_def r3_bet_step_def Let_def total_stacks_update)

lemma showdown_step_conserved:
  "idx < n \<Longrightarrow> conserved n c v \<Longrightarrow> conserved n c (showdown_step ev idx v)"
  by (auto simp: conserved_def showdown_step_def Let_def total_stacks_update)

lemma fold_frame:
  assumes "\<And>x s. g (f x s) = g s"
  shows "g (fold f xs s) = g s"
  using assms by (induction xs arbitrary: s) simp_all

lemma buy_in_step_wf:
  "i < n \<Longrightarrow> hand_wf n c h w v \<Longrightarrow> buy_in_step i v = Inr v1 \<Longrightarrow> hand_wf n c h w v1"
  unfolding hand_wf_def
  by (auto dest: buy_in_step_conserved
           simp: buy_in_step_def Let_def split: if_splits sum.splits prod.splits)

lemma r1_afford_step_wf:
  "idx < n \<Longrightarrow> hand_wf n c h w v \<Longrightarrow> hand_wf n c h w (r1_afford_step idx v)"
  unfolding hand_wf_def
  by (auto dest: r1_afford_step_conserved simp: r1_afford_step_def Let_def)

lemma r1_bet_step_wf:
  "idx < n \<Longrightarrow> hand_wf n c h w v \<Longrightarrow> hand_wf n c h w (r1_bet_step ins idx v)"
  unfolding hand_wf_def
  by (auto dest: r1_bet_step_conserved [where ins = ins]
           simp: r1_bet_step_def Let_def split: prod.splits)

lemma r2_bet_step_wf:
  "idx < n \<Longrightarrow> hand_wf n c h w v \<Longrightarrow> hand_wf n c h w (r2_bet_step ins idx v)"
  unfolding hand_wf_def
  by (auto dest: r2_bet_step_conserved [where ins = ins] simp: r2_bet_step_def Let_def)

lemma r3_bet_step_wf:
  "idx < n \<Longrightarrow> hand_wf n c h w v \<Longrightarrow> hand_wf n c h w (r3_bet_step ins idx v)"
  unfolding hand_wf_def
  by (auto dest: r3_bet_step_conserved [where ins = ins] simp: r3_bet_step_def Let_def)

lemma showdown_step_wf:
  "idx < n \<Longrightarrow> hand_wf n c h w v \<Longrightarrow> hand_wf n c h w (showdown_step ev idx v)"
  unfolding hand_wf_def
  by (auto dest: showdown_step_conserved [where ev = ev] simp: showdown_step_def Let_def)

lemma round0_wf:
  assumes "round0 ins v = Inr v0"
  shows "hand_wf (length (players v)) (total_stacks (players v)) (match_history v)
           (no_of_wins v) v0"
    and "length (community_cards v0) = 5"
proof -
  let ?n = "length (players v)"
  let ?start = "v\<lparr>pot := 0, deck := shuffled_deck ins, community_cards := [],
                   active_players_indices := []\<rparr>"
  from assms obtain va cs d where
    loop: "for_each buy_in_step [0..<?n] ?start = Inr va"
    and deal: "pop_n (Suc (Suc (Suc (Suc (Suc 0))))) (deck va) = Inr (cs, d)"
    and v0: "v0 = va\<lparr>community_cards := cs, deck := d\<rparr>"
    by (auto simp: round0_def split: sum.splits prod.splits)
  let ?I = "hand_wf ?n (total_stacks (players v)) (match_history v) (no_of_wins v)"
  have "?I ?start" by (simp add: hand_wf_def conserved_def)
  with loop have "?I va"
    by (rule for_each_invariant) (auto intro: buy_in_step_wf)
  then show "?I v0" by (simp add: v0 hand_wf_def conserved_def)
  show "length (community_cards v0) = 5"
    using pop_n_length [OF deal] by (simp add: v0)
qed

lemma round1_afford_loop:
  assumes "hand_wf n c h w v"
  shows "hand_wf n c h w (fold r1_afford_step (active_players_indices v)
                            (v\<lparr>round1_active_indices := []\<rparr>))
       \<and> set (round1_active_indices (fold r1_afford_step (active_players_indices v)
                            (v\<lparr>round1_active_indices := []\<rparr>))) \<subseteq> {..<n}"
proof (rule fold_invariant [where I = "\<lambda>s. hand_wf n c h w s \<and> set (round1_active_indices s) \<subseteq> {..<n}"])
  show "hand_wf n c h w (v\<lparr>round1_active_indices := []\<rparr>)
        \<and> set (round1_active_indices (v\<lparr>round1_active_indices := []\<rparr>)) \<subseteq> {..<n}"
    using assms by (simp add: hand_wf_def conserved_def)
next
  fix x s
  assume x: "x \<in> set (active_players_indices v)"
    and s: "hand_wf n c h w s \<and> set (round1_active_indices s) \<subseteq> {..<n}"
  have xn: "x < n" using x assms by (auto simp: hand_wf_def)
  have "set (round1_active_indices (r1_afford_step x s)) \<subseteq> {..<n}"
    using s xn by (auto simp: r1_afford_step_def Let_def)
  then show "hand_wf n c h w (r1_afford_step x s)
             \<and> set (round1_active_indices (r1_afford_step x s)) \<subseteq> {..<n}"
    using s xn by (simp add: r1_afford_step_wf)
qed

lemma r1_bet_step_frame:
  "round1_active_indices (r1_bet_step ins idx v) = round1_active_indices v"
  "community_cards (r1_bet_step ins idx v) = community_cards v"
  by (simp_all add: r1_bet_step_def Let_def split: prod.splits)

lemma r1_afford_step_frame:
  "community_cards (r1_afford_step idx v) = community_cards v"
  by (simp add: r1_afford_step_def Let_def)

lemma round1_wf:
  assumes "hand_wf n c h w v"
  shows "hand_wf n c h w (round1 ins v)"
    and "set (round1_active_indices (round1 ins v)) \<subseteq> {..<n}"
    and "set (round1_post_fold_indices (round1 ins v)) \<subseteq> {..<n}"
    and "community_cards (round1 ins v) = community_cards v"
proof -
  let ?va = "fold r1_afford_step (active_players_indices v) (v\<lparr>round1_active_indices := []\<rparr>)"
  let ?vb = "fold (r1_bet_step ins) (round1_active_indices ?va) ?va"
  have a: "hand_wf n c h w ?va" "set (round1_active_indices ?va) \<subseteq> {..<n}"
    using round1_afford_loop [OF assms] by simp_all
  have b: "hand_wf n c h w ?vb"
    by (rule fold_invariant [where I = "hand_wf n c h w"])
       (use a in \<open>auto intro: r1_bet_step_wf\<close>)
  have ract: "round1_active_indices ?vb = round1_active_indices ?va"
    by (rule fold_frame) (rule r1_bet_step_frame)
  have r: "round1 ins v = ?vb\<lparr>round1_post_fold_indices :=
             filter (\<lambda>i. \<not> has_folded (players ?vb ! i)) (round1_active_indices ?vb)\<rparr>"
    by (simp add: round1_def Let_def)
  show "hand_wf n c h w (round1 ins v)"
    using b by (simp add: r hand_wf_def conserved_def)
  show "set (round1_active_indices (round1 ins v)) \<subseteq> {..<n}"
    using a(2) by (simp add: r ract)
  show "set (round1_post_fold_indices (round1 ins v)) \<subseteq> {..<n}"
    using a(2) by (auto simp: r ract)
  have "community_cards ?vb = community_cards ?va"
    by (rule fold_frame) (rule r1_bet_step_frame)
  also have "\<dots> = community_cards (v\<lparr>round1_active_indices := []\<rparr>)"
    by (rule fold_frame) (rule r1_afford_step_frame)
  finally show "community_cards (round1 ins v) = community_cards v"
    by (simp add: r)
qed

lemma r2_bet_step_frame:
  "round2_active_indices (r2_bet_step ins idx v) = round2_active_indices v"
  "community_cards (r2_bet_step ins idx v) = community_cards v"
  "active_players_indices (r2_bet_step ins idx v) = active_players_indices v"
  by (simp_all add: r2_bet_step_def Let_def)

lemma r3_bet_step_frame:
  "round2_active_indices (r3_bet_step ins idx v) = round2_active_indices v"
  "community_cards (r3_bet_step ins idx v) = community_cards v"
  "active_players_indices (r3_bet_step ins idx v) = active_players_indices v"
  by (simp_all add: r3_bet_step_def Let_def)

lemma showdown_step_frame:
  "round2_active_indices (showdown_step ev idx v) = round2_active_indices v"
  "community_cards (showdown_step ev idx v) = community_cards v"
  "pot (showdown_step ev idx v) = pot v"
  "active_players_indices (showdown_step ev idx v) = active_players_indices v"
  by (simp_all add: showdown_step_def Let_def)

lemma round2_loop_wf:
  assumes "hand_wf n c h w v" "set is \<subseteq> {..<n}"
  shows "hand_wf n c h w (fold (r2_bet_step ins) is v)"
  by (rule fold_invariant [where I = "hand_wf n c h w"])
     (use assms in \<open>auto intro: r2_bet_step_wf\<close>)

lemma round3_loop_wf:
  assumes "hand_wf n c h w v" "set is \<subseteq> {..<n}"
  shows "hand_wf n c h w (fold (r3_bet_step ins) is v)"
  by (rule fold_invariant [where I = "hand_wf n c h w"])
     (use assms in \<open>auto intro: r3_bet_step_wf\<close>)

lemma showdown_wf:
  assumes "hand_wf n c h w v"
  shows "hand_wf n c h w (showdown ev v)"
    and "set (winners (showdown ev v)) \<subseteq> set (active_players_indices v)"
    and "pot (showdown ev v) = pot v"
    and "round2_active_indices (showdown ev v) = round2_active_indices v"
    and "community_cards (showdown ev v) = community_cards v"
proof -
  let ?start = "v\<lparr>best_score := 7463, winners := [], round_history := []\<rparr>"
  have s: "hand_wf n c h w ?start" using assms by (simp add: hand_wf_def conserved_def)
  have idx: "set (active_players_indices v) \<subseteq> {..<n}" using assms by (simp add: hand_wf_def)
  show "hand_wf n c h w (showdown ev v)"
    unfolding showdown_def
    by (rule fold_invariant [where I = "hand_wf n c h w"])
       (use s idx in \<open>auto intro: showdown_step_wf\<close>)
  show "set (winners (showdown ev v)) \<subseteq> set (active_players_indices v)"
    unfolding showdown_def
    by (rule fold_invariant
             [where I = "\<lambda>s. set (winners s) \<subseteq> set (active_players_indices v)"])
       (auto simp: showdown_step_def Let_def)
  show "pot (showdown ev v) = pot v"
    unfolding showdown_def by (simp add: fold_frame showdown_step_frame)
  show "round2_active_indices (showdown ev v) = round2_active_indices v"
    unfolding showdown_def by (simp add: fold_frame showdown_step_frame)
  show "community_cards (showdown ev v) = community_cards v"
    unfolding showdown_def by (simp add: fold_frame showdown_step_frame)
qed

text \<open>The payout loop.\<close>

lemma pay_step_frame:
  "pot (pay_step k sh x v) = pot v"
  "round2_active_indices (pay_step k sh x v) = round2_active_indices v"
  "length (players (pay_step k sh x v)) = length (players v)"
  "match_history (pay_step k sh x v) = match_history v"
  "community_cards (pay_step k sh x v) = community_cards v"
  by (simp_all add: pay_step_def Let_def)

lemma pay_step_bound: "total_win (pay_step k sh x v) \<le> total_win v + sh"
  by (simp add: pay_step_def Let_def)

lemma pay_step_total:
  "x < length (players v) \<Longrightarrow>
   total_stacks (players (pay_step k sh x v)) - total_win (pay_step k sh x v)
     = total_stacks (players v) - total_win v"
  by (simp add: pay_step_def Let_def total_stacks_update)

lemma pay_loop:
  assumes "\<forall>x \<in> set ws. x < length (players v)"
  shows "length (players (fold (pay_step k sh) ws v)) = length (players v)
       \<and> total_stacks (players (fold (pay_step k sh) ws v)) - total_win (fold (pay_step k sh) ws v)
           = total_stacks (players v) - total_win v
       \<and> total_win (fold (pay_step k sh) ws v) \<le> total_win v + of_nat (length ws) * sh"
  using assms
proof (induction ws arbitrary: v)
  case (Cons x ws)
  let ?v1 = "pay_step k sh x v"
  have x: "x < length (players v)" using Cons.prems by simp
  have "\<forall>y \<in> set ws. y < length (players ?v1)"
    using Cons.prems by (simp add: pay_step_frame)
  from Cons.IH [OF this] pay_step_total [OF x, of k sh] pay_step_bound [of k sh x v]
  show ?case by (simp add: pay_step_frame algebra_simps)
qed simp

lemma pay_winners_facts:
  assumes "\<forall>x \<in> set (winners v). x < length (players v)" "winners v \<noteq> []"
  shows "length (players (pay_winners v)) = length (players v)"
    and "total_stacks (players (pay_winners v)) = total_stacks (players v) + total_win (pay_winners v)"
    and "total_win (pay_winners v) \<le> pot v"
    and "remaining_pot (pay_winners v) = pot v - total_win (pay_winners v)"
    and "pot (pay_winners v) = pot v"
    and "round2_active_indices (pay_winners v) = round2_active_indices v"
proof -
  let ?k = "length (winners v)"
  let ?sh = "pot v / of_nat ?k"
  let ?v0 = "v\<lparr>total_win := 0\<rparr>"
  let ?v1 = "fold (pay_step ?k ?sh) (winners v) ?v0"
  have pw: "pay_winners v = ?v1\<lparr>remaining_pot := pot ?v1 - total_win ?v1\<rparr>"
    by (simp add: pay_winners_def Let_def)
  have "\<forall>x \<in> set (winners v). x < length (players ?v0)" using assms(1) by simp
  from pay_loop [OF this, of ?k ?sh]
  have l: "length (players ?v1) = length (players v)"
    and t: "total_stacks (players ?v1) - total_win ?v1 = total_stacks (players v)"
    and b: "total_win ?v1 \<le> of_nat ?k * ?sh"
    by simp_all
  have k: "of_nat ?k * ?sh = pot v" using assms(2) by simp
  have p: "pot ?v1 = pot v" by (simp add: fold_frame pay_step_frame)
  show "length (players (pay_winners v)) = length (players v)" using l by (simp add: pw)
  show "total_stacks (players (pay_winners v)) = total_stacks (players v) + total_win (pay_winners v)"
    using t by (simp add: pw)
  show "total_win (pay_winners v) \<le> pot v" using b k by (simp add: pw)
  show "remaining_pot (pay_winners v) = pot v - total_win (pay_winners v)" by (simp add: pw p)
  show "pot (pay_winners v) = pot v" by (simp add: pw p)
  show "round2_active_indices (pay_winners v) = round2_active_indices v"
    by (simp add: pw fold_frame pay_step_frame)
qed

text \<open>The redistribution loop.\<close>

lemma add_share_loop:
  assumes "\<forall>i \<in> set rs. i < length (players v)"
  shows "length (players (fold (add_share s) rs v)) = length (players v)
       \<and> total_stacks (players (fold (add_share s) rs v))
           = total_stacks (players v) + of_nat (length rs) * s"
  using assms
proof (induction rs arbitrary: v)
  case (Cons i rs)
  let ?v1 = "add_share s i v"
  have i: "i < length (players v)" using Cons.prems by simp
  have l1: "length (players ?v1) = length (players v)" by (simp add: add_share_def)
  have t1: "total_stacks (players ?v1) = total_stacks (players v) + s"
    using i by (simp add: add_share_def total_stacks_update)
  have "\<forall>j \<in> set rs. j < length (players ?v1)" using Cons.prems l1 by simp
  from Cons.IH [OF this] l1 t1 show ?case by (simp add: algebra_simps)
qed simp

lemma add_share_frame:
  "pot (add_share s i v) = pot v"
  "total_win (add_share s i v) = total_win v"
  "remaining_pot (add_share s i v) = remaining_pot v"
  "match_history (add_share s i v) = match_history v"
  "no_of_wins (add_share s i v) = no_of_wins v"
  by (simp_all add: add_share_def)

lemma redistribute_frame:
  "pot (redistribute v) = pot v"
  "total_win (redistribute v) = total_win v"
  "remaining_pot (redistribute v) = remaining_pot v"
  "match_history (redistribute v) = match_history v"
  "no_of_wins (redistribute v) = no_of_wins v"
  by (simp_all add: redistribute_def Let_def fold_frame add_share_frame)

lemma redistribute_total:
  assumes "\<forall>i \<in> set (round2_active_indices v). i < length (players v)"
    and "round2_active_indices v \<noteq> []" and "0 \<le> remaining_pot v"
  shows "total_stacks (players (redistribute v)) = total_stacks (players v) + remaining_pot v"
proof (cases "remaining_pot v > 0")
  case True
  let ?rs = "round2_active_indices v"
  have "of_nat (length ?rs) * (remaining_pot v / of_nat (length ?rs)) = remaining_pot v"
    using assms(2) by simp
  then show ?thesis
    using True assms(2) add_share_loop [OF assms(1), of "remaining_pot v / of_nat (length ?rs)"]
    by (simp add: redistribute_def Let_def)
next
  case False
  then show ?thesis using assms(3) by (simp add: redistribute_def)
qed

lemma allocate_facts:
  assumes "\<forall>x \<in> set (winners v). x < length (players v)" "winners v \<noteq> []"
    and "\<forall>i \<in> set (round2_active_indices v). i < length (players v)"
    and "round2_active_indices v \<noteq> []"
  shows "pot (allocate v) = pot v"
    and "total_win (allocate v) \<le> pot v"
    and "total_win (allocate v) + remaining_pot (allocate v) = pot v"
    and "total_stacks (players (allocate v)) = total_stacks (players v) + pot v"
proof -
  let ?v1 = "pay_winners v"
  let ?v2 = "?v1\<lparr>match_history := match_history ?v1 @
                 [\<lparr>log_seats = round_history ?v1, log_community_cards = community_cards ?v1,
                   log_pot_final = pot ?v1\<rparr>]\<rparr>"
  note pw = pay_winners_facts [OF assms(1,2)]
  have al: "allocate v = redistribute ?v2" by (simp add: allocate_def Let_def)
  have r: "\<forall>i \<in> set (round2_active_indices ?v2). i < length (players ?v2)"
    using assms(3) pw(1,6) by simp
  have ne: "round2_active_indices ?v2 \<noteq> []" using assms(4) pw(6) by simp
  have nn: "0 \<le> remaining_pot ?v2" using pw(3,4) by simp
  show "pot (allocate v) = pot v" by (simp add: al redistribute_frame pw(5))
  show "total_win (allocate v) \<le> pot v" using pw(3) by (simp add: al redistribute_frame)
  show "total_win (allocate v) + remaining_pot (allocate v) = pot v"
    using pw(4) by (simp add: al redistribute_frame)
  show "total_stacks (players (allocate v)) = total_stacks (players v) + pot v"
    using redistribute_total [OF r ne nn] pw(2,4) by (simp add: al)
qed

lemma play_game_cases:
  assumes "play_game ev ins v = Inr (e, v')"
  obtains (halt) v0 where "round0 ins v = Inr v0" "length (active_players_indices v0) < 2"
                          "e = Halt" "v' = v0"
        | (played) v0 where "round0 ins v = Inr v0" "2 \<le> length (active_players_indices v0)"
                          "play_rounds ev ins v0 = (e, v')"
  using assms by (auto simp: play_game_def split: sum.splits if_splits)

lemma early_win_facts:
  assumes "hd (round1_post_fold_indices v) < length (players v)"
  shows "pot (early_win v) = pot v"
    and "actual_win (early_win v) =
           min (4 * (BUY_IN + current_bet_r1 (players v ! hd (round1_post_fold_indices v)))) (pot v)"
    and "total_stacks (players (early_win v)) = total_stacks (players v) + actual_win (early_win v)"
  using assms by (simp_all add: early_win_def Let_def total_stacks_update)

lemma rounds23_showdown_wf:
  fixes ins :: hand_inputs and ev :: evaluator
  assumes "hand_wf n c h w v" "set (round2_active_indices v) \<subseteq> {..<n}"
  defines "v3 \<equiv> fold (r2_bet_step ins) (round2_active_indices v) v"
  defines "v4 \<equiv> fold (r3_bet_step ins) (round2_active_indices v3) v3"
  defines "v5 \<equiv> showdown ev v4"
  shows "hand_wf n c h w v5"
    and "round2_active_indices v5 = round2_active_indices v"
    and "set (winners v5) \<subseteq> {..<n}"
    and "community_cards v5 = community_cards v"
proof -
  have w3: "hand_wf n c h w v3" unfolding v3_def using assms(1,2) by (rule round2_loop_wf)
  have r3: "round2_active_indices v3 = round2_active_indices v"
    unfolding v3_def by (simp add: fold_frame r2_bet_step_frame)
  have w4: "hand_wf n c h w v4"
    unfolding v4_def using w3 assms(2) r3 by (auto intro: round3_loop_wf)
  have r4: "round2_active_indices v4 = round2_active_indices v"
    unfolding v4_def using r3 by (simp add: fold_frame r3_bet_step_frame)
  have a4: "set (active_players_indices v4) \<subseteq> {..<n}" using w4 by (simp add: hand_wf_def)
  show "hand_wf n c h w v5" unfolding v5_def using w4 by (rule showdown_wf)
  show "round2_active_indices v5 = round2_active_indices v"
    unfolding v5_def using showdown_wf(4) [OF w4] r4 by simp
  show "set (winners v5) \<subseteq> {..<n}"
    unfolding v5_def using showdown_wf(2) [OF w4] a4 by blast
  have "community_cards v3 = community_cards v"
    unfolding v3_def by (simp add: fold_frame r2_bet_step_frame)
  moreover have "community_cards v4 = community_cards v3"
    unfolding v4_def by (simp add: fold_frame r3_bet_step_frame)
  ultimately show "community_cards v5 = community_cards v"
    unfolding v5_def using showdown_wf(5) [OF w4] by simp
qed

section \<open>Pot allocation\<close>

text \<open>
  Claim C1, as the code has it. A hand that reaches the showdown pays the winners at most
  the pot in capped payouts and redistributes the whole remainder: payouts plus remainder
  are the pot, and all of it reaches the stacks. Everything in the pot was taken from the
  stacks during the hand, so \<open>total_stacks (players v) - pot v'\<close> is what the stacks hold
  right before the payout. A hand that ends in the early win pays the single winner
  \<open>min cap pot\<close>, at most the pot, and nothing else reaches a stack: a remainder there is
  not redistributed.
\<close>

theorem pot_allocation:
  assumes "play_game ev ins v = Inr (e, v')"
  shows "(e = ShowdownPaid \<longrightarrow>
            total_win v' \<le> pot v'
          \<and> total_win v' + remaining_pot v' = pot v'
          \<and> total_stacks (players v')
              = total_stacks (players v) - pot v' + (total_win v' + remaining_pot v'))
       \<and> (e = EarlyWin \<longrightarrow>
            actual_win v' \<le> pot v'
          \<and> total_stacks (players v') = total_stacks (players v) - pot v' + actual_win v')"
  using assms
proof (cases rule: play_game_cases)
  case (halt v0)
  then show ?thesis by simp
next
  case (played v0)
  let ?n = "length (players v)"
  let ?c = "total_stacks (players v)"
  let ?h = "match_history v"
  let ?w = "no_of_wins v"
  let ?v1 = "round1 ins v0"
  have wf0: "hand_wf ?n ?c ?h ?w v0" using played(1) by (rule round0_wf)
  note r1 = round1_wf [OF wf0, of ins]
  have cons1: "length (players ?v1) = ?n" "total_stacks (players ?v1) + pot ?v1 = ?c"
    using r1(1) by (simp_all add: hand_wf_def conserved_def)
  show ?thesis
  proof (cases "length (round1_post_fold_indices ?v1) = 1")
    case True
    then have e: "e = EarlyWin" "v' = early_win ?v1"
      using played(3) by (simp_all add: play_rounds_def Let_def)
    have "hd (round1_post_fold_indices ?v1) \<in> set (round1_post_fold_indices ?v1)"
      using True by (cases "round1_post_fold_indices ?v1") simp_all
    then have "hd (round1_post_fold_indices ?v1) < length (players ?v1)"
      using r1(3) cons1(1) by auto
    from early_win_facts [OF this] cons1(2) show ?thesis
      by (simp add: e)
  next
    case False
    let ?v2 = "?v1\<lparr>round2_active_indices := round1_post_fold_indices ?v1\<rparr>"
    show ?thesis
    proof (cases "e = ShowdownPaid")
      case True
      let ?v3 = "fold (r2_bet_step ins) (round2_active_indices ?v2) ?v2"
      let ?v4 = "fold (r3_bet_step ins) (round2_active_indices ?v3) ?v3"
      let ?v5 = "showdown ev ?v4"
      from True False played(3) have ne: "round2_active_indices ?v2 \<noteq> []"
        and win: "winners ?v5 \<noteq> []" and v': "v' = allocate ?v5"
        by (auto simp: play_rounds_def Let_def split: if_splits)
      have wf2: "hand_wf ?n ?c ?h ?w ?v2" using r1(1) by (simp add: hand_wf_def conserved_def)
      have i2: "set (round2_active_indices ?v2) \<subseteq> {..<?n}" using r1(3) by simp
      note sd = rounds23_showdown_wf [OF wf2 i2, where ins = ins and ev = ev]
      have cons5: "length (players ?v5) = ?n" "total_stacks (players ?v5) + pot ?v5 = ?c"
        using sd(1) by (simp_all add: hand_wf_def conserved_def)
      have a: "\<forall>x \<in> set (winners ?v5). x < length (players ?v5)"
        using sd(3) cons5(1) by auto
      have b: "\<forall>i \<in> set (round2_active_indices ?v5). i < length (players ?v5)"
        using sd(2) i2 cons5(1) by auto
      have c: "round2_active_indices ?v5 \<noteq> []" using sd(2) ne by simp
      from allocate_facts [OF a win b c] cons5(2) show ?thesis
        by (simp add: v' True)
    next
      case False
      moreover have "e \<noteq> EarlyWin"
        using played(3) \<open>length (round1_post_fold_indices ?v1) \<noteq> 1\<close>
        by (auto simp: play_rounds_def Let_def split: if_splits)
      ultimately show ?thesis by simp
    qed
  qed
qed

section \<open>Bets of rounds 2 and 3\<close>

text \<open>
  Claim C4, as the code has it. The bet applied in round 2 (round 3) is the raw value that
  the strategy returns, clamped to \<open>[0.5, 1.5]\<close> times the player's round-1 bet
  (\<open>[0.75, 1.25]\<close> times the round-2 bet) and then capped at the stack. So it never
  exceeds the upper bound nor the stack the player has before the bet, it reaches the lower
  bound whenever that stack does, and it is the whole stack otherwise. It is taken from the
  stack and added to the pot. The prior bet is not negative (it is 0 or a clamped, capped
  bet itself).
\<close>

theorem later_round_bets:
  assumes "idx < length (players v)"
    and "0 \<le> current_bet_r1 (players v ! idx)"
    and "0 \<le> current_bet_r2 (players v ! idx)"
  shows "(let p = players v ! idx;
              lo = 1 / 2 * current_bet_r1 p; hi = 3 / 2 * current_bet_r1 p;
              v2 = r2_bet_step ins idx v;
              bet = current_bet_r2 (players v2 ! idx)
          in bet = min (max lo (min hi (strategy_round2 ins idx))) (stack p)
           \<and> bet \<le> hi \<and> bet \<le> stack p
           \<and> (lo \<le> stack p \<longrightarrow> lo \<le> bet)
           \<and> (stack p < lo \<longrightarrow> bet = stack p)
           \<and> stack (players v2 ! idx) = stack p - bet \<and> pot v2 = pot v + bet)
       \<and> (let p = players v ! idx;
              lo = 3 / 4 * current_bet_r2 p; hi = 5 / 4 * current_bet_r2 p;
              v3 = r3_bet_step ins idx v;
              bet = final_round_bet (players v3 ! idx)
          in bet = min (max lo (min hi (strategy_round3 ins idx))) (stack p)
           \<and> bet \<le> hi \<and> bet \<le> stack p
           \<and> (lo \<le> stack p \<longrightarrow> lo \<le> bet)
           \<and> (stack p < lo \<longrightarrow> bet = stack p)
           \<and> stack (players v3 ! idx) = stack p - bet \<and> pot v3 = pot v + bet)"
  using assms by (simp add: Let_def r2_bet_step_def r3_bet_step_def min_def max_def)

theorem later_round_bets_witness:
  "current_bet_r2 (players (r2_bet_step ins_call 0 table_two) ! 0)
     = min (max 75 (min 225 (strategy_round2 ins_call 0))) 50
   \<and> current_bet_r2 (players (r2_bet_step ins_call 0 table_two) ! 0) = 50
   \<and> final_round_bet (players (r3_bet_step ins_call 0 table_two) ! 0)
     = min (max 30 (min 50 (strategy_round3 ins_call 0))) 50
   \<and> final_round_bet (players (r3_bet_step ins_call 0 table_two) ! 0) = 50"
  using later_round_bets [of 0 table_two ins_call]
  by (simp add: table_two_def init_vars_def new_player_def Let_def ins_call_def)

section \<open>The payout of a winner\<close>

lemma pay_step_players:
  "players (pay_step k sh x v) =
     (players v)[x := (players v ! x)\<lparr>stack := stack (players v ! x) + min (cap_of (players v ! x)) sh\<rparr>]"
  by (simp add: pay_step_def Let_def cap_of_def)

lemma pay_loop_each:
  assumes "distinct ws" "\<forall>w \<in> set ws. w < length (players v)"
  shows "(\<forall>w \<in> set ws. stack (players (fold (pay_step k sh) ws v) ! w)
                          = stack (players v ! w) + min (cap_of (players v ! w)) sh)
       \<and> (\<forall>i. i \<notin> set ws \<longrightarrow> players (fold (pay_step k sh) ws v) ! i = players v ! i)"
  using assms
proof (induction ws arbitrary: v)
  case (Cons x ws)
  let ?v1 = "pay_step k sh x v"
  have x: "x < length (players v)" "x \<notin> set ws" using Cons.prems by simp_all
  have len: "length (players ?v1) = length (players v)" by (simp add: pay_step_players)
  have other: "\<And>i. i \<noteq> x \<Longrightarrow> players ?v1 ! i = players v ! i"
    by (simp add: pay_step_players)
  have self: "stack (players ?v1 ! x) = stack (players v ! x) + min (cap_of (players v ! x)) sh"
    using x(1) by (simp add: pay_step_players)
  have "distinct ws" "\<forall>w \<in> set ws. w < length (players ?v1)"
    using Cons.prems len by simp_all
  from Cons.IH [OF this]
  have ih1: "\<forall>w \<in> set ws. stack (players (fold (pay_step k sh) ws ?v1) ! w)
                 = stack (players ?v1 ! w) + min (cap_of (players ?v1 ! w)) sh"
    and ih2: "\<forall>i. i \<notin> set ws \<longrightarrow> players (fold (pay_step k sh) ws ?v1) ! i = players ?v1 ! i"
    by simp_all
  show ?case
  proof (intro conjI ballI allI impI)
    fix w assume "w \<in> set (x # ws)"
    then show "stack (players (fold (pay_step k sh) (x # ws) v) ! w)
                 = stack (players v ! w) + min (cap_of (players v ! w)) sh"
      using ih1 ih2 other self x(2) by (cases "w = x") auto
  next
    fix i assume "i \<notin> set (x # ws)"
    then show "players (fold (pay_step k sh) (x # ws) v) ! i = players v ! i"
      using ih2 other by simp
  qed
qed simp

text \<open>
  Claim C5. The payout loop adds to the stack of each winner
  \<open>min (pot / number of winners) (4 * (BUY_IN + round-1 bet + round-2 bet + round-3 bet))\<close>
  with that winner's own bets, so no payout exceeds the winner's own cap, and it leaves
  every other player as he was. The winners are distinct seats of the table, as the
  showdown produces them.
\<close>

theorem winner_payout:
  assumes "distinct (winners v)" "\<forall>w \<in> set (winners v). w < length (players v)"
  shows "(\<forall>w \<in> set (winners v).
            stack (players (pay_winners v) ! w) - stack (players v ! w)
              = min (pot v / of_nat (length (winners v)))
                    (4 * (BUY_IN + current_bet_r1 (players v ! w) + current_bet_r2 (players v ! w)
                          + final_round_bet (players v ! w)))
          \<and> stack (players (pay_winners v) ! w) - stack (players v ! w)
              \<le> 4 * (BUY_IN + current_bet_r1 (players v ! w) + current_bet_r2 (players v ! w)
                          + final_round_bet (players v ! w)))
       \<and> (\<forall>i. i \<notin> set (winners v) \<longrightarrow> players (pay_winners v) ! i = players v ! i)"
proof -
  let ?k = "length (winners v)"
  let ?sh = "pot v / of_nat ?k"
  let ?v0 = "v\<lparr>total_win := 0\<rparr>"
  have pw: "players (pay_winners v) = players (fold (pay_step ?k ?sh) (winners v) ?v0)"
    by (simp add: pay_winners_def Let_def)
  have "distinct (winners v)" "\<forall>w \<in> set (winners v). w < length (players ?v0)"
    using assms by simp_all
  from pay_loop_each [OF this, of ?k ?sh] show ?thesis
    unfolding pw by (simp add: cap_of_def min.commute)
qed

theorem winner_payout_witness:
  "stack (players (pay_winners table_two) ! 0) - 50 = 1160
   \<and> stack (players (pay_winners table_two) ! 1) - 900 = 1500"
  using winner_payout [of table_two]
  by (simp add: table_two_def init_vars_def new_player_def BUY_IN_def)

section \<open>The early win\<close>

lemma round1_post_fold:
  "round1_post_fold_indices (round1 ins v) =
     filter (\<lambda>i. \<not> has_folded (players (round1 ins v) ! i)) (round1_active_indices (round1 ins v))"
  by (simp add: round1_def Let_def)

text \<open>
  Claim C7. When, after round 1, exactly one of the players who acted in it has not folded,
  the hand ends as an early win: that player's stack grows by
  \<open>min pot (4 * (BUY_IN + own round-1 bet))\<close>, no other player changes, the player's win
  counter grows by exactly 1, and the history gains one entry, whose community cards are
  the first three of the five dealt and whose pot is the pot after round 1. The hypotheses
  say that the buy-ins were collected and the cards dealt (\<open>round0\<close> returns), that at least
  two players posted the buy-in, and that one player is left after round 1.
\<close>

theorem early_win_hand:
  assumes "round0 ins v = Inr v0"
    and "2 \<le> length (active_players_indices v0)"
    and "filter (\<lambda>i. \<not> has_folded (players (round1 ins v0) ! i))
           (round1_active_indices (round1 ins v0)) = [w]"
  shows "\<exists>v' entry.
           play_game ev ins v = Inr (EarlyWin, v')
         \<and> stack (players v' ! w)
             = stack (players (round1 ins v0) ! w)
               + min (pot (round1 ins v0))
                     (4 * (BUY_IN + current_bet_r1 (players (round1 ins v0) ! w)))
         \<and> (\<forall>i. i \<noteq> w \<longrightarrow> players v' ! i = players (round1 ins v0) ! i)
         \<and> no_of_wins v' = (no_of_wins v)[w := no_of_wins v ! w + 1]
         \<and> match_history v' = match_history v @ [entry]
         \<and> log_community_cards entry = take 3 (community_cards v0)
         \<and> length (log_community_cards entry) = 3
         \<and> log_pot_final entry = pot (round1 ins v0)"
proof -
  let ?v1 = "round1 ins v0"
  let ?n = "length (players v)"
  have wf0: "hand_wf ?n (total_stacks (players v)) (match_history v) (no_of_wins v) v0"
    and c5: "length (community_cards v0) = 5"
    using assms(1) by (rule round0_wf)+
  note r1 = round1_wf [OF wf0, of ins]
  have post: "round1_post_fold_indices ?v1 = [w]"
    using assms(3) by (simp add: round1_post_fold)
  have wn: "w < length (players ?v1)"
    using r1(1,3) post by (simp add: hand_wf_def conserved_def)
  have h1: "match_history ?v1 = match_history v" "no_of_wins ?v1 = no_of_wins v"
    using r1(1) by (simp_all add: hand_wf_def)
  have pg: "play_game ev ins v = Inr (EarlyWin, early_win ?v1)"
    using assms(1,2) post by (simp add: play_game_def play_rounds_def Let_def)
  let ?v' = "early_win ?v1"
  let ?entry = "truncated_log ?v'"
  have "stack (players ?v' ! w)
          = stack (players ?v1 ! w)
            + min (pot ?v1) (4 * (BUY_IN + current_bet_r1 (players ?v1 ! w)))"
    using wn post by (simp add: early_win_def Let_def min.commute)
  moreover have "\<forall>i. i \<noteq> w \<longrightarrow> players ?v' ! i = players ?v1 ! i"
    using post by (simp add: early_win_def Let_def)
  moreover have "no_of_wins ?v' = (no_of_wins v)[w := no_of_wins v ! w + 1]"
    using post h1 by (simp add: early_win_def Let_def)
  moreover have "match_history ?v' = match_history v @ [?entry]"
    using h1 by (simp add: early_win_def Let_def truncated_log_def)
  moreover have "log_community_cards ?entry = take 3 (community_cards v0)"
    using r1(4) by (simp add: early_win_def Let_def truncated_log_def)
  moreover have "length (log_community_cards ?entry) = 3"
    using r1(4) c5 by (simp add: early_win_def Let_def truncated_log_def)
  moreover have "log_pot_final ?entry = pot ?v1"
    by (simp add: early_win_def Let_def truncated_log_def)
  ultimately show ?thesis using pg by blast
qed

section \<open>Stacks are never negative\<close>

lemma list_all_update: "list_all P xs \<Longrightarrow> P y \<Longrightarrow> list_all P (xs[i := y])"
  by (induction xs arbitrary: i) (auto split: nat.splits)

lemma solventD:
  assumes "solvent v" "idx < length (players v)"
  shows "0 \<le> stack (players v ! idx)" "0 \<le> current_bet_r1 (players v ! idx)"
    "0 \<le> current_bet_r2 (players v ! idx)" "0 \<le> final_round_bet (players v ! idx)"
    "0 \<le> pot v"
  using assms by (simp_all add: solvent_def list_all_length good_player_def)

lemma r1_afford_step_solvent:
  "idx < length (players v) \<Longrightarrow> solvent v \<Longrightarrow> solvent (r1_afford_step idx v)"
  using solventD [of v idx] unfolding solvent_def r1_afford_step_def Let_def
  by (auto intro!: list_all_update simp: good_player_def min_def max_def)

lemma r1_bet_step_solvent:
  "idx < length (players v) \<Longrightarrow> solvent v \<Longrightarrow> solvent (r1_bet_step ins idx v)"
  using solventD [of v idx] unfolding solvent_def r1_bet_step_def Let_def
  by (auto intro!: list_all_update simp: good_player_def min_def max_def split: prod.splits)

lemma r2_bet_step_solvent:
  "idx < length (players v) \<Longrightarrow> solvent v \<Longrightarrow> solvent (r2_bet_step ins idx v)"
  using solventD [of v idx] unfolding solvent_def r2_bet_step_def Let_def
  by (auto intro!: list_all_update simp: good_player_def min_def max_def)

lemma r3_bet_step_solvent:
  "idx < length (players v) \<Longrightarrow> solvent v \<Longrightarrow> solvent (r3_bet_step ins idx v)"
  using solventD [of v idx] unfolding solvent_def r3_bet_step_def Let_def
  by (auto intro!: list_all_update simp: good_player_def min_def max_def)

lemma showdown_step_solvent:
  "idx < length (players v) \<Longrightarrow> solvent v \<Longrightarrow> solvent (showdown_step ev idx v)"
  using solventD [of v idx] unfolding solvent_def showdown_step_def Let_def
  by (auto intro!: list_all_update simp: good_player_def min_def max_def)

lemma pay_step_solvent:
  "x < length (players v) \<Longrightarrow> 0 \<le> sh \<Longrightarrow> solvent v \<Longrightarrow> solvent (pay_step k sh x v)"
  using solventD [of v x] unfolding solvent_def pay_step_def Let_def
  by (auto intro!: list_all_update simp: good_player_def min_def max_def BUY_IN_def)

lemma add_share_solvent:
  "i < length (players v) \<Longrightarrow> 0 \<le> s \<Longrightarrow> solvent v \<Longrightarrow> solvent (add_share s i v)"
  using solventD [of v i] unfolding solvent_def add_share_def
  by (auto intro!: list_all_update simp: good_player_def min_def max_def)

lemma early_win_solvent:
  "hd (round1_post_fold_indices v) < length (players v) \<Longrightarrow> solvent v \<Longrightarrow> solvent (early_win v)"
  using solventD [of v "hd (round1_post_fold_indices v)"] unfolding solvent_def early_win_def Let_def
  by (auto intro!: list_all_update simp: good_player_def min_def max_def BUY_IN_def)

lemma solvent_cong:
  "players v' = players v \<Longrightarrow> pot v' = pot v \<Longrightarrow> solvent v' = solvent v"
  by (simp add: solvent_def)

lemma buy_in_step_effect:
  assumes "buy_in_step i v = Inr v1" "0 \<le> stack (players v ! i)" "0 \<le> pot v"
  shows "\<exists>p. players v1 = (players v)[i := p] \<and> good_player p" and "0 \<le> pot v1"
  using assms
  by (auto simp: buy_in_step_def Let_def reset_round_def good_player_def BUY_IN_def
           split: if_splits sum.splits prod.splits)

lemma buy_in_loop_solvent:
  assumes "for_each buy_in_step is v = Inr v'"
    and "\<forall>i \<in> set is. i < length (players v)"
    and "\<forall>i < length (players v). 0 \<le> stack (players v ! i)"
    and "0 \<le> pot v"
    and "\<forall>i < length (players v). i \<notin> set is \<longrightarrow> good_player (players v ! i)"
  shows "solvent v'"
  using assms
proof (induction "is" arbitrary: v)
  case Nil
  then show ?case by (simp add: solvent_def list_all_length)
next
  case (Cons x xs)
  from Cons.prems(1) obtain v1 where
    s1: "buy_in_step x v = Inr v1" and rest: "for_each buy_in_step xs v1 = Inr v'"
    by (auto split: sum.splits)
  have x: "x < length (players v)" using Cons.prems(2) by simp
  then have sx: "0 \<le> stack (players v ! x)" using Cons.prems(3) by simp
  from buy_in_step_effect [OF s1 sx Cons.prems(4)] obtain p where
    p: "players v1 = (players v)[x := p]" "good_player p" and pot1: "0 \<le> pot v1"
    by blast
  have len: "length (players v1) = length (players v)" by (simp add: p(1))
  have a: "\<forall>i \<in> set xs. i < length (players v1)" using Cons.prems(2) len by simp
  have b: "\<forall>i < length (players v1). 0 \<le> stack (players v1 ! i)"
    using Cons.prems(3) p x by (auto simp: nth_list_update good_player_def)
  have c: "\<forall>i < length (players v1). i \<notin> set xs \<longrightarrow> good_player (players v1 ! i)"
    using Cons.prems(5) p x by (auto simp: nth_list_update)
  show ?case by (rule Cons.IH [OF rest a b pot1 c])
qed

lemma round0_solvent:
  assumes "round0 ins v = Inr v0" "list_all (\<lambda>p. 0 \<le> stack p) (players v)"
  shows "solvent v0"
proof -
  let ?start = "v\<lparr>pot := 0, deck := shuffled_deck ins, community_cards := [],
                   active_players_indices := []\<rparr>"
  from assms(1) obtain va cs d where
    loop: "for_each buy_in_step [0..<length (players v)] ?start = Inr va"
    and v0: "v0 = va\<lparr>community_cards := cs, deck := d\<rparr>"
    by (auto simp: round0_def split: sum.splits prod.splits)
  have "solvent va"
    by (rule buy_in_loop_solvent [OF loop]) (use assms(2) in \<open>simp_all add: list_all_length\<close>)
  then show ?thesis by (simp add: v0 solvent_def)
qed

lemma fold_wf_solvent:
  assumes "hand_wf n c h w s" "solvent s" "set xs \<subseteq> {..<n}"
    and "\<And>x s. x < n \<Longrightarrow> hand_wf n c h w s \<Longrightarrow> hand_wf n c h w (f x s)"
    and "\<And>x s. x < length (players s) \<Longrightarrow> solvent s \<Longrightarrow> solvent (f x s)"
  shows "solvent (fold f xs s)"
proof -
  have "hand_wf n c h w (fold f xs s) \<and> solvent (fold f xs s)"
  proof (rule fold_invariant [where I = "\<lambda>s. hand_wf n c h w s \<and> solvent s"])
    show "hand_wf n c h w s \<and> solvent s" using assms(1,2) by simp
  next
    fix x s' assume x: "x \<in> set xs" and s': "hand_wf n c h w s' \<and> solvent s'"
    have xn: "x < n" using x assms(3) by auto
    have "length (players s') = n" using s' by (simp add: hand_wf_def conserved_def)
    then show "hand_wf n c h w (f x s') \<and> solvent (f x s')"
      using xn s' assms(4,5) by simp
  qed
  then show ?thesis by simp
qed

lemma round1_solvent:
  assumes "hand_wf n c h w v" "solvent v"
  shows "solvent (round1 ins v)"
proof -
  let ?v0 = "v\<lparr>round1_active_indices := []\<rparr>"
  let ?va = "fold r1_afford_step (active_players_indices v) ?v0"
  let ?vb = "fold (r1_bet_step ins) (round1_active_indices ?va) ?va"
  have w0: "hand_wf n c h w ?v0" "solvent ?v0"
    using assms by (simp_all add: hand_wf_def conserved_def solvent_def)
  have act: "set (active_players_indices v) \<subseteq> {..<n}" using assms(1) by (simp add: hand_wf_def)
  have a: "solvent ?va"
    by (rule fold_wf_solvent [OF w0 act]) (auto intro: r1_afford_step_wf r1_afford_step_solvent)
  have wa: "hand_wf n c h w ?va" "set (round1_active_indices ?va) \<subseteq> {..<n}"
    using round1_afford_loop [OF assms(1)] by simp_all
  have b: "solvent ?vb"
    by (rule fold_wf_solvent [OF wa(1) a wa(2)]) (auto intro: r1_bet_step_wf r1_bet_step_solvent)
  have "round1 ins v = ?vb\<lparr>round1_post_fold_indices :=
             filter (\<lambda>i. \<not> has_folded (players ?vb ! i)) (round1_active_indices ?vb)\<rparr>"
    by (simp add: round1_def Let_def)
  then show ?thesis using b by (simp add: solvent_def)
qed

lemma rounds23_showdown_solvent:
  fixes ins :: hand_inputs and ev :: evaluator
  assumes "hand_wf n c h w v" "set (round2_active_indices v) \<subseteq> {..<n}" "solvent v"
  defines "v3 \<equiv> fold (r2_bet_step ins) (round2_active_indices v) v"
  defines "v4 \<equiv> fold (r3_bet_step ins) (round2_active_indices v3) v3"
  shows "solvent (showdown ev v4)"
proof -
  have w3: "hand_wf n c h w v3" unfolding v3_def using assms(1,2) by (rule round2_loop_wf)
  have s3: "solvent v3" unfolding v3_def
    by (rule fold_wf_solvent [OF assms(1,3,2)]) (auto intro: r2_bet_step_wf r2_bet_step_solvent)
  have r3: "round2_active_indices v3 = round2_active_indices v"
    unfolding v3_def by (simp add: fold_frame r2_bet_step_frame)
  have i3: "set (round2_active_indices v3) \<subseteq> {..<n}" using r3 assms(2) by simp
  have w4: "hand_wf n c h w v4" unfolding v4_def using w3 i3 by (rule round3_loop_wf)
  have s4: "solvent v4" unfolding v4_def
    by (rule fold_wf_solvent [OF w3 s3 i3]) (auto intro: r3_bet_step_wf r3_bet_step_solvent)
  let ?start = "v4\<lparr>best_score := 7463, winners := [], round_history := []\<rparr>"
  have ws: "hand_wf n c h w ?start" "solvent ?start"
    using w4 s4 by (simp_all add: hand_wf_def conserved_def solvent_def)
  have a4: "set (active_players_indices v4) \<subseteq> {..<n}" using w4 by (simp add: hand_wf_def)
  show ?thesis unfolding showdown_def
    by (rule fold_wf_solvent [OF ws a4]) (auto intro: showdown_step_wf showdown_step_solvent)
qed

lemma fold_len_solvent:
  assumes "solvent s" "\<forall>x \<in> set xs. x < length (players s)"
    and "\<And>x s. length (players (f x s)) = length (players s)"
    and "\<And>x s. x < length (players s) \<Longrightarrow> solvent s \<Longrightarrow> solvent (f x s)"
  shows "solvent (fold f xs s)"
proof -
  let ?n = "length (players s)"
  have "length (players (fold f xs s)) = ?n \<and> solvent (fold f xs s)"
    by (rule fold_invariant [where I = "\<lambda>t. length (players t) = ?n \<and> solvent t"])
       (use assms in auto)
  then show ?thesis by simp
qed

lemma allocate_solvent:
  assumes "solvent v" "\<forall>x \<in> set (winners v). x < length (players v)"
    and "\<forall>i \<in> set (round2_active_indices v). i < length (players v)"
  shows "solvent (allocate v)"
proof -
  let ?k = "length (winners v)"
  let ?sh = "pot v / of_nat ?k"
  let ?v0 = "v\<lparr>total_win := 0\<rparr>"
  let ?v1 = "fold (pay_step ?k ?sh) (winners v) ?v0"
  have sh: "0 \<le> ?sh" using assms(1) by (simp add: solvent_def)
  have s0: "solvent ?v0" using assms(1) by (simp add: solvent_def)
  have s1: "solvent ?v1"
    by (rule fold_len_solvent [OF s0])
       (use assms(2) sh in \<open>auto intro: pay_step_solvent simp: pay_step_frame\<close>)
  have l1: "length (players ?v1) = length (players v)"
    using pay_loop [of "winners v" ?v0 ?k ?sh] assms(2) by simp
  have r1: "round2_active_indices ?v1 = round2_active_indices v"
    by (simp add: fold_frame pay_step_frame)
  let ?v2 = "?v1\<lparr>remaining_pot := pot ?v1 - total_win ?v1\<rparr>"
  let ?v3 = "?v2\<lparr>match_history := match_history ?v2 @
                 [\<lparr>log_seats = round_history ?v2, log_community_cards = community_cards ?v2,
                   log_pot_final = pot ?v2\<rparr>]\<rparr>"
  have al: "allocate v = redistribute ?v3"
    by (simp add: allocate_def pay_winners_def Let_def)
  have s3: "solvent ?v3" using s1 by (simp add: solvent_def)
  have i3: "\<forall>i \<in> set (round2_active_indices ?v3). i < length (players ?v3)"
    using assms(3) l1 r1 by simp
  show ?thesis
  proof (cases "remaining_pot ?v3 > 0 \<and> round2_active_indices ?v3 \<noteq> []")
    case True
    let ?s = "remaining_pot ?v3 / of_nat (length (round2_active_indices ?v3))"
    have pos: "0 \<le> ?s" using True by simp
    have "solvent (fold (add_share ?s) (round2_active_indices ?v3) ?v3)"
    proof (rule fold_len_solvent [OF s3 i3])
      fix x t show "length (players (add_share ?s x t)) = length (players t)"
        by (simp add: add_share_def)
    next
      fix x t assume "x < length (players t)" "solvent t"
      then show "solvent (add_share ?s x t)" using pos by (intro add_share_solvent)
    qed
    then show ?thesis using True unfolding al redistribute_def Let_def by simp
  next
    case False
    then have "redistribute ?v3 = ?v3" by (auto simp: redistribute_def Let_def)
    then show ?thesis using s3 al by simp
  qed
qed

lemma play_game_solvent:
  assumes "play_game ev ins v = Inr (e, v')" "list_all (\<lambda>p. 0 \<le> stack p) (players v)"
  shows "solvent v'"
  using assms(1)
proof (cases rule: play_game_cases)
  case (halt v0)
  then show ?thesis using round0_solvent [OF _ assms(2)] by simp
next
  case (played v0)
  let ?n = "length (players v)"
  let ?c = "total_stacks (players v)"
  let ?h = "match_history v"
  let ?w = "no_of_wins v"
  let ?v1 = "round1 ins v0"
  have wf0: "hand_wf ?n ?c ?h ?w v0" using played(1) by (rule round0_wf)
  have s0: "solvent v0" using played(1) assms(2) by (rule round0_solvent)
  note r1 = round1_wf [OF wf0, of ins]
  have s1: "solvent ?v1" using wf0 s0 by (rule round1_solvent)
  have len1: "length (players ?v1) = ?n" using r1(1) by (simp add: hand_wf_def conserved_def)
  show ?thesis
  proof (cases "length (round1_post_fold_indices ?v1) = 1")
    case True
    then have v': "v' = early_win ?v1"
      using played(3) by (simp add: play_rounds_def Let_def)
    have "hd (round1_post_fold_indices ?v1) \<in> set (round1_post_fold_indices ?v1)"
      using True by (cases "round1_post_fold_indices ?v1") simp_all
    then have "hd (round1_post_fold_indices ?v1) < length (players ?v1)"
      using r1(3) len1 by auto
    then show ?thesis unfolding v' using s1 by (rule early_win_solvent)
  next
    case False
    let ?v2 = "?v1\<lparr>round2_active_indices := round1_post_fold_indices ?v1\<rparr>"
    have wf2: "hand_wf ?n ?c ?h ?w ?v2" using r1(1) by (simp add: hand_wf_def conserved_def)
    have s2: "solvent ?v2" using s1 by (simp add: solvent_def)
    have i2: "set (round2_active_indices ?v2) \<subseteq> {..<?n}" using r1(3) by simp
    show ?thesis
    proof (cases "round1_post_fold_indices ?v1 = []")
      case True
      then have "v' = no_round2 ?v2"
        using played(3) by (simp add: play_rounds_def Let_def)
      then show ?thesis using s2 by (simp add: no_round2_def solvent_def)
    next
      case ne: False
      let ?v3 = "fold (r2_bet_step ins) (round2_active_indices ?v2) ?v2"
      let ?v4 = "fold (r3_bet_step ins) (round2_active_indices ?v3) ?v3"
      let ?v5 = "showdown ev ?v4"
      have s5: "solvent ?v5" using wf2 i2 s2 by (rule rounds23_showdown_solvent)
      note sd = rounds23_showdown_wf [OF wf2 i2, where ins = ins and ev = ev]
      have len5: "length (players ?v5) = ?n" using sd(1) by (simp add: hand_wf_def conserved_def)
      have a: "\<forall>x \<in> set (winners ?v5). x < length (players ?v5)" using sd(3) len5 by auto
      have b: "\<forall>i \<in> set (round2_active_indices ?v5). i < length (players ?v5)"
        using sd(2) i2 len5 by auto
      from False ne played(3) have "v' = ?v5 \<or> v' = allocate ?v5"
        by (auto simp: play_rounds_def Let_def split: if_splits)
      then show ?thesis using s5 allocate_solvent [OF s5 a b] by auto
    qed
  qed
qed

lemma solvent_stacks: "solvent v \<Longrightarrow> list_all (\<lambda>p. 0 \<le> stack p) (players v)"
  by (simp add: solvent_def list_all_iff good_player_def)

text \<open>
  Claim C8. No stack is ever negative. Each operation on a stack keeps it so (the lemmas
  above, one for each: the buy-in and the forfeit of round 0, the forfeit and the bet of
  round 1, the bets of rounds 2 and 3, the payout of a winner, the early win and the
  redistribution), so does a whole hand, and so does any sequence of hands of a match that
  starts with stacks that are not negative, as \<open>play_match\<close> does.
\<close>

theorem stacks_never_negative:
  assumes "play_games ev ins gs v = Inr v'"
    and "list_all (\<lambda>p. 0 \<le> stack p) (players v)"
  shows "list_all (\<lambda>p. 0 \<le> stack p) (players v')"
  using assms
proof (induction gs arbitrary: v)
  case Nil
  then show ?case by simp
next
  case (Cons g gs)
  from Cons.prems(1) obtain e v1 where
    h: "play_game ev (ins g) v = Inr (e, v1)"
    and rest: "(if e = Halt then Inr v1 else play_games ev ins gs v1) = Inr v'"
    by (auto split: sum.splits prod.splits)
  have s1: "list_all (\<lambda>p. 0 \<le> stack p) (players v1)"
    using play_game_solvent [OF h Cons.prems(2)] by (rule solvent_stacks)
  show ?case
  proof (cases "e = Halt")
    case True
    then show ?thesis using rest s1 by simp
  next
    case False
    then show ?thesis using rest s1 Cons.IH by simp
  qed
qed

section \<open>A hand that fewer than two players can enter\<close>

lemma pop_n_ok:
  "k \<le> length d \<Longrightarrow> \<exists>cs d1. pop_n k d = Inr (cs, d1) \<and> length d1 + k = length d"
proof (induction k arbitrary: d)
  case (Suc k)
  then have ne: "d \<noteq> []" by auto
  have "k \<le> length (butlast d)" using Suc.prems by simp
  from Suc.IH [OF this] obtain cs d1 where
    "pop_n k (butlast d) = Inr (cs, d1)" "length d1 + k = length (butlast d)" by blast
  then show ?case using ne Suc.prems by (simp add: pop_def)
qed simp

lemma buy_in_step_char:
  assumes "x < length (players v)" "funded (players v ! x) \<longrightarrow> 2 \<le> length (deck v)"
  shows "\<exists>v1. buy_in_step x v = Inr v1
       \<and> length (players v1) = length (players v)
       \<and> (\<forall>j. j \<noteq> x \<longrightarrow> players v1 ! j = players v ! j)
       \<and> after_buy_in (players v ! x) (players v1 ! x)
       \<and> match_history v1 = match_history v \<and> no_of_wins v1 = no_of_wins v
       \<and> (if funded (players v ! x)
           then length (deck v1) + 2 = length (deck v)
              \<and> active_players_indices v1 = active_players_indices v @ [x]
           else deck v1 = deck v \<and> active_players_indices v1 = active_players_indices v)"
proof (cases "funded (players v ! x)")
  case True
  then have "2 \<le> length (deck v)" using assms(2) by simp
  then have "Suc (Suc 0) \<le> length (deck v)" by simp
  from pop_n_ok [OF this] obtain cs d1 where
    "pop_n (Suc (Suc 0)) (deck v) = Inr (cs, d1)" "length d1 + Suc (Suc 0) = length (deck v)"
    by blast
  then show ?thesis
    using True assms(1)
    by (simp add: buy_in_step_def Let_def reset_round_def funded_def after_buy_in_def
             del: pop_n.simps)
next
  case False
  then show ?thesis
    using assms(1)
    by (auto simp: buy_in_step_def Let_def reset_round_def funded_def after_buy_in_def)
qed

lemma buy_in_loop_char:
  assumes "distinct is" "\<forall>i \<in> set is. i < length (players v)"
    and "2 * length (filter (\<lambda>i. funded (players v ! i)) is) + m \<le> length (deck v)"
  shows "\<exists>v'. for_each buy_in_step is v = Inr v'
       \<and> length (players v') = length (players v)
       \<and> (\<forall>j. j \<notin> set is \<longrightarrow> players v' ! j = players v ! j)
       \<and> (\<forall>i \<in> set is. after_buy_in (players v ! i) (players v' ! i))
       \<and> match_history v' = match_history v \<and> no_of_wins v' = no_of_wins v
       \<and> m \<le> length (deck v')
       \<and> active_players_indices v'
           = active_players_indices v @ filter (\<lambda>i. funded (players v ! i)) is"
  using assms
proof (induction "is" arbitrary: v)
  case Nil
  then show ?case by simp
next
  case (Cons x xs)
  have x: "x < length (players v)" "x \<notin> set xs" "distinct xs" using Cons.prems by simp_all
  have dk: "funded (players v ! x) \<longrightarrow> 2 \<le> length (deck v)" using Cons.prems(3) by auto
  from buy_in_step_char [OF x(1) dk] obtain v1 where
    s: "buy_in_step x v = Inr v1"
    and len: "length (players v1) = length (players v)"
    and oth: "\<forall>j. j \<noteq> x \<longrightarrow> players v1 ! j = players v ! j"
    and self: "after_buy_in (players v ! x) (players v1 ! x)"
    and fr: "match_history v1 = match_history v" "no_of_wins v1 = no_of_wins v"
    and dec: "if funded (players v ! x)
           then length (deck v1) + 2 = length (deck v)
              \<and> active_players_indices v1 = active_players_indices v @ [x]
           else deck v1 = deck v \<and> active_players_indices v1 = active_players_indices v"
    by blast
  have same: "filter (\<lambda>i. funded (players v1 ! i)) xs = filter (\<lambda>i. funded (players v ! i)) xs"
    using oth x(2) by (intro filter_cong) auto
  have a: "\<forall>i \<in> set xs. i < length (players v1)" using Cons.prems(2) len by simp
  have b: "2 * length (filter (\<lambda>i. funded (players v1 ! i)) xs) + m \<le> length (deck v1)"
    using Cons.prems(3) dec same by (auto split: if_splits)
  from Cons.IH [OF x(3) a b] obtain v' where
    r: "for_each buy_in_step xs v1 = Inr v'"
    and l': "length (players v') = length (players v1)"
    and o': "\<forall>j. j \<notin> set xs \<longrightarrow> players v' ! j = players v1 ! j"
    and s': "\<forall>i \<in> set xs. after_buy_in (players v1 ! i) (players v' ! i)"
    and f': "match_history v' = match_history v1" "no_of_wins v' = no_of_wins v1"
    and d': "m \<le> length (deck v')"
    and a': "active_players_indices v'
           = active_players_indices v1 @ filter (\<lambda>i. funded (players v1 ! i)) xs"
    by blast
  have "for_each buy_in_step (x # xs) v = Inr v'" using s r by simp
  moreover have "\<forall>j. j \<notin> set (x # xs) \<longrightarrow> players v' ! j = players v ! j"
    using o' oth by simp
  moreover have "\<forall>i \<in> set (x # xs). after_buy_in (players v ! i) (players v' ! i)"
  proof
    fix i assume i: "i \<in> set (x # xs)"
    show "after_buy_in (players v ! i) (players v' ! i)"
    proof (cases "i = x")
      case True
      then show ?thesis using self o' x(2) by simp
    next
      case False
      then have "i \<in> set xs" "players v1 ! i = players v ! i" using i oth by simp_all
      then show ?thesis using s' by force
    qed
  qed
  moreover have "active_players_indices v'
           = active_players_indices v @ filter (\<lambda>i. funded (players v ! i)) (x # xs)"
    using a' dec same by (auto split: if_splits)
  ultimately show ?case using l' len f' fr d' by auto
qed

lemma length_filter_indices:
  "length (filter (\<lambda>i. P (ps ! i)) [0..<length ps]) = length (filter P ps)"
proof -
  have "filter P (map (\<lambda>i. ps ! i) [0..<length ps])
          = map (\<lambda>i. ps ! i) (filter (\<lambda>i. P (ps ! i)) [0..<length ps])"
    by (simp add: filter_map comp_def)
  then show ?thesis by (metis length_map map_nth)
qed

text \<open>
  Claim C10. If fewer than two players can post the buy-in of hand \<open>g\<close> (and the shuffled
  deck holds the cards that are dealt: two for a funded player and five for the board), the
  hand stops after the buy-in loop and so does the match: whatever hands \<open>gs\<close> were still
  to be played, the final state is the state right after the buy-in loop of hand \<open>g\<close>.
  Nothing is refunded or paid: a funded player's stack stays reduced by the buy-in, every
  other player is eliminated (the stack of a player eliminated in this hand is forfeited and
  becomes 0), the collected money stays in the pot of the aborted hand, and neither the
  history nor the win counters change.
\<close>

theorem too_few_funded_players:
  assumes "length (filter funded (players v)) < 2"
    and "7 \<le> length (shuffled_deck (ins g))"
  shows "\<exists>v'. play_games ev ins (g # gs) v = Inr v'
       \<and> play_game ev (ins g) v = Inr (Halt, v')
       \<and> length (players v') = length (players v)
       \<and> (\<forall>i < length (players v). after_buy_in (players v ! i) (players v' ! i))
       \<and> total_stacks (players v') + pot v' = total_stacks (players v)
       \<and> match_history v' = match_history v \<and> no_of_wins v' = no_of_wins v"
proof -
  let ?n = "length (players v)"
  let ?start = "v\<lparr>pot := 0, deck := shuffled_deck (ins g), community_cards := [],
                   active_players_indices := []\<rparr>"
  let ?k = "length (filter (\<lambda>i. funded (players ?start ! i)) [0..<?n])"
  have k: "?k < 2" using assms(1) length_filter_indices [of funded "players v"] by simp
  have "distinct [0..<?n]" "\<forall>i \<in> set [0..<?n]. i < length (players ?start)" by simp_all
  moreover have "2 * ?k + 5 \<le> length (deck ?start)" using k assms(2) by simp
  ultimately obtain va where
    loop: "for_each buy_in_step [0..<?n] ?start = Inr va"
    and len: "length (players va) = ?n"
    and each: "\<forall>i \<in> set [0..<?n]. after_buy_in (players ?start ! i) (players va ! i)"
    and fr: "match_history va = match_history ?start" "no_of_wins va = no_of_wins ?start"
    and dk: "5 \<le> length (deck va)"
    and act: "active_players_indices va
           = active_players_indices ?start @ filter (\<lambda>i. funded (players ?start ! i)) [0..<?n]"
    using buy_in_loop_char [of "[0..<?n]" ?start 5] by auto
  have "Suc (Suc (Suc (Suc (Suc 0)))) \<le> length (deck va)" using dk by simp
  from pop_n_ok [OF this] obtain cs d1 where
    deal: "pop_n (Suc (Suc (Suc (Suc (Suc 0))))) (deck va) = Inr (cs, d1)" by blast
  let ?v0 = "va\<lparr>community_cards := cs, deck := d1\<rparr>"
  have r0: "round0 (ins g) v = Inr ?v0"
    using loop deal by (simp add: round0_def del: pop_n.simps)
  have few: "length (active_players_indices ?v0) < 2" using act k by simp
  have pg: "play_game ev (ins g) v = Inr (Halt, ?v0)"
    using r0 few by (simp add: play_game_def)
  then have pgs: "play_games ev ins (g # gs) v = Inr ?v0" by simp
  have "total_stacks (players ?v0) + pot ?v0 = total_stacks (players v)"
    using round0_wf(1) [OF r0] by (simp add: hand_wf_def conserved_def)
  then show ?thesis using pgs pg len each fr by auto
qed

section \<open>The concrete hands, evaluated\<close>

lemmas hand_defs = play_game_def round0_def buy_in_step_def with_stacks_def init_vars_def
  PLAYER_NAMES_def new_player_def reset_round_def pop_def BUY_IN_def STARTING_STACK_def
  play_rounds_def round1_def r1_afford_step_def r1_bet_step_def early_win_def truncated_log_def
  snapshot_def Let_def no_round2_def r2_bet_step_def r3_bet_step_def showdown_def
  showdown_step_def evaluate_hand_def evaluate_best_hand_def best_step_def allocate_def
  pay_winners_def pay_step_def redistribute_def add_share_def

lemmas deck_defs = deck_royal_board_def deck_royal_seat0_def stack_deck_def royal_def
  create_deck_def RANKS_def SUITS_def

lemma hand_early_win:
  "(case play_game ev_royal ins_call (with_stacks [10000, 199, 199, 199, 199]) of
      Inl x \<Rightarrow> None
    | Inr (e, v) \<Rightarrow> Some (e, pot v, actual_win v, map stack (players v)))
   = Some (EarlyWin, 996, 800, [10600, 0, 0, 0, 0])"
  by (simp add: hand_defs ins_call_def deck_defs)

lemma hand_showdown_tie:
  "(case play_game ev_royal ins_call (with_stacks [10000, 10000, 150, 10000, 10000]) of
      Inl x \<Rightarrow> None
    | Inr (e, v) \<Rightarrow> Some (e, map stack (players v), map is_lost_match (players v), pot v, winners v, round2_active_indices v, total_win v, remaining_pot v))
   = Some (ShowdownPaid, [9950, 9950, 350, 9950, 9950], [False, False, True, False, False], 1750, [0, 1, 2, 3, 4], [0, 1, 3, 4], 1750, 0)"
  by (simp add: hand_defs ins_call_def deck_defs ev_royal_def)

lemma report_cases:
  assumes "(case r of Inl x \<Rightarrow> None | Inr (e, v) \<Rightarrow> Some (f e v)) = Some y"
  obtains e v where "r = Inr (e, v)" "f e v = y"
  using assms by (auto split: sum.splits prod.splits)

lemma hand_showdown_seat0:
  "(case play_game ev_royal ins_raise (with_stacks [250, 10000, 10000, 10000, 10000]) of
      Inl x \<Rightarrow> None
    | Inr (e, v) \<Rightarrow>
        Some (e, map stack (players v), map current_bet_r1 (players v),
              map current_bet_r2 (players v), map final_round_bet (players v),
              pot v, winners v, total_win v, remaining_pot v))
   = Some (ShowdownPaid, [1210, 9760, 9760, 9760, 9760], [150, 150, 150, 150, 150],
           [0, 100, 100, 100, 100], [0, 100, 100, 100, 100], 2050, [0], 1000, 1050)"
  by (simp add: hand_defs ins_raise_def deck_defs ev_royal_def)

lemma map_head: "map f xs = y # ys \<Longrightarrow> f (xs ! 0) = y"
  by (cases xs) auto

lemma report_cases1:
  assumes "(case r of Inl x \<Rightarrow> None | Inr v \<Rightarrow> Some (f v)) = Some y"
  obtains v where "r = Inr v" "f v = y"
  using assms by (auto split: sum.splits)

lemma hand_early_win_round1:
  "(case round0 ins_call (with_stacks [10000, 199, 199, 199, 199]) of
      Inl x \<Rightarrow> None
    | Inr v0 \<Rightarrow>
        Some (length (active_players_indices v0),
              filter (\<lambda>i. \<not> has_folded (players (round1 ins_call v0) ! i))
                (round1_active_indices (round1 ins_call v0))))
   = Some (5, [0])"
  by (simp add: hand_defs ins_call_def deck_defs)

theorem pot_allocation_witness:
  "(\<exists>v'. play_game ev_royal ins_raise (with_stacks [250, 10000, 10000, 10000, 10000])
            = Inr (ShowdownPaid, v')
         \<and> total_win v' \<le> pot v'
         \<and> total_win v' + remaining_pot v' = pot v'
         \<and> total_stacks (players v')
             = total_stacks (players (with_stacks [250, 10000, 10000, 10000, 10000])) - pot v'
               + (total_win v' + remaining_pot v'))
   \<and> (\<exists>v'. play_game ev_royal ins_call (with_stacks [10000, 199, 199, 199, 199])
            = Inr (EarlyWin, v')
         \<and> actual_win v' \<le> pot v'
         \<and> total_stacks (players v')
             = total_stacks (players (with_stacks [10000, 199, 199, 199, 199])) - pot v'
               + actual_win v')"
proof
  from hand_showdown_seat0 obtain e v where
    r: "play_game ev_royal ins_raise (with_stacks [250, 10000, 10000, 10000, 10000]) = Inr (e, v)"
    and "e = ShowdownPaid"
    by (rule report_cases) simp
  with pot_allocation [OF r]
  show "\<exists>v'. play_game ev_royal ins_raise (with_stacks [250, 10000, 10000, 10000, 10000])
            = Inr (ShowdownPaid, v')
         \<and> total_win v' \<le> pot v'
         \<and> total_win v' + remaining_pot v' = pot v'
         \<and> total_stacks (players v')
             = total_stacks (players (with_stacks [250, 10000, 10000, 10000, 10000])) - pot v'
               + (total_win v' + remaining_pot v')"
    by auto
next
  from hand_early_win obtain e v where
    r: "play_game ev_royal ins_call (with_stacks [10000, 199, 199, 199, 199]) = Inr (e, v)"
    and "e = EarlyWin"
    by (rule report_cases) simp
  with pot_allocation [OF r]
  show "\<exists>v'. play_game ev_royal ins_call (with_stacks [10000, 199, 199, 199, 199])
            = Inr (EarlyWin, v')
         \<and> actual_win v' \<le> pot v'
         \<and> total_stacks (players v')
             = total_stacks (players (with_stacks [10000, 199, 199, 199, 199])) - pot v'
               + actual_win v'"
    by auto
qed

text \<open>
  Claim C1 as stated fails for the early win. Five seats, four of them with a stack of 199:
  they post the buy-in, cannot afford round 1 and forfeit 99 each; the fifth bets 100 and is
  the only player left. The pot is 996, the cap is \<open>4 * (100 + 100) = 800\<close>, the
  winner is paid 800, and the remaining 196 reach no stack.
\<close>

theorem early_win_remainder_lost:
  "(case play_game ev_royal ins_call (with_stacks [10000, 199, 199, 199, 199]) of
      Inl x \<Rightarrow> None
    | Inr (e, v) \<Rightarrow> Some (e, pot v, actual_win v, pot v - actual_win v, map stack (players v)))
   = Some (EarlyWin, 996, 800, 196, [10600, 0, 0, 0, 0])"
proof -
  from hand_early_win obtain e v where
    "play_game ev_royal ins_call (with_stacks [10000, 199, 199, 199, 199]) = Inr (e, v)"
    and "(e, pot v, actual_win v, map stack (players v)) = (EarlyWin, 996, 800, [10600, 0, 0, 0, 0])"
    by (rule report_cases)
  then show ?thesis by simp
qed

text \<open>
  Claim C4 as stated fails at the lower bound. The first seat starts the hand with 250,
  posts the buy-in and bets its remaining 150 in round 1. In round 2 the clamp gives at
  least 75, the stack is empty, and the bet applied is 0.
\<close>

theorem round2_bet_below_bound:
  "(case play_game ev_royal ins_raise (with_stacks [250, 10000, 10000, 10000, 10000]) of
      Inl x \<Rightarrow> None
    | Inr (e, v) \<Rightarrow>
        Some (e, current_bet_r1 (players v ! 0), current_bet_r2 (players v ! 0),
              current_bet_r2 (players v ! 0) < 1 / 2 * current_bet_r1 (players v ! 0)))
   = Some (ShowdownPaid, 150, 0, True)"
proof -
  from hand_showdown_seat0 obtain e v where
    r: "play_game ev_royal ins_raise (with_stacks [250, 10000, 10000, 10000, 10000]) = Inr (e, v)"
    and f: "(e, map stack (players v), map current_bet_r1 (players v),
             map current_bet_r2 (players v), map final_round_bet (players v),
             pot v, winners v, total_win v, remaining_pot v)
            = (ShowdownPaid, [1210, 9760, 9760, 9760, 9760], [150, 150, 150, 150, 150],
               [0, 100, 100, 100, 100], [0, 100, 100, 100, 100], 2050, [0], 1000, 1050)"
    by (rule report_cases)
  from f have "e = ShowdownPaid" "current_bet_r1 (players v ! 0) = 150"
    "current_bet_r2 (players v ! 0) = 0"
    by (auto dest: map_head)
  then show ?thesis by (simp add: r)
qed

theorem early_win_hand_witness:
  "\<exists>v0 v' entry.
     round0 ins_call (with_stacks [10000, 199, 199, 199, 199]) = Inr v0
   \<and> play_game ev_royal ins_call (with_stacks [10000, 199, 199, 199, 199]) = Inr (EarlyWin, v')
   \<and> stack (players v' ! 0)
       = stack (players (round1 ins_call v0) ! 0)
         + min (pot (round1 ins_call v0))
               (4 * (BUY_IN + current_bet_r1 (players (round1 ins_call v0) ! 0)))
   \<and> no_of_wins v'
       = (no_of_wins (with_stacks [10000, 199, 199, 199, 199]))
           [0 := no_of_wins (with_stacks [10000, 199, 199, 199, 199]) ! 0 + 1]
   \<and> match_history v' = match_history (with_stacks [10000, 199, 199, 199, 199]) @ [entry]
   \<and> length (log_community_cards entry) = 3"
proof -
  from hand_early_win_round1 obtain v0 where
    r0: "round0 ins_call (with_stacks [10000, 199, 199, 199, 199]) = Inr v0"
    and f: "(length (active_players_indices v0),
             filter (\<lambda>i. \<not> has_folded (players (round1 ins_call v0) ! i))
               (round1_active_indices (round1 ins_call v0))) = (5, [0])"
    by (rule report_cases1)
  from f have two: "2 \<le> length (active_players_indices v0)"
    and one: "filter (\<lambda>i. \<not> has_folded (players (round1 ins_call v0) ! i))
               (round1_active_indices (round1 ins_call v0)) = [0]"
    by simp_all
  from early_win_hand [OF r0 two one, of ev_royal] r0 show ?thesis by blast
qed

theorem stacks_never_negative_witness:
  "\<exists>v'. play_games ev_royal (\<lambda>g. ins_call) [1] (with_stacks [10000, 199, 199, 199, 199]) = Inr v'
        \<and> list_all (\<lambda>p. 0 \<le> stack p) (players v')"
proof -
  from hand_early_win obtain e v where
    r: "play_game ev_royal ins_call (with_stacks [10000, 199, 199, 199, 199]) = Inr (e, v)"
    and "e = EarlyWin"
    by (rule report_cases) simp
  then have pg: "play_games ev_royal (\<lambda>g. ins_call) [1] (with_stacks [10000, 199, 199, 199, 199])
                   = Inr v"
    by simp
  have "list_all (\<lambda>p. 0 \<le> stack p) (players (with_stacks [10000, 199, 199, 199, 199]))"
    by (simp add: with_stacks_def init_vars_def PLAYER_NAMES_def new_player_def)
  from stacks_never_negative [OF pg this] pg show ?thesis by blast
qed

section \<open>A player eliminated in round 1 at the showdown\<close>

lemma map_nth_eq: "map f xs = ys \<Longrightarrow> i < length ys \<Longrightarrow> f (xs ! i) = ys ! i"
  by (metis length_map nth_map)

text \<open>
  Claim C2 does not hold of the code. The showdown loop runs over \<open>active_players_indices\<close>,
  the players who paid the buy-in, and skips only those who folded. A player who paid the
  buy-in and was then eliminated at the affordability test of round 1 (stack below 100, so
  never in \<open>round1_active_indices\<close> nor in \<open>round2_active_indices\<close>) has not folded, is
  scored and can win. Seat 2 enters the hand with 150: it pays the buy-in, forfeits the
  remaining 50 in round 1, and with the royal flush on the board it is one of the five
  winners of the showdown, while the players active entering round 2 are seats 0, 1, 3, 4.
\<close>

theorem eliminated_player_wins_showdown:
  "\<exists>v'. play_game ev_royal ins_call (with_stacks [10000, 10000, 150, 10000, 10000])
          = Inr (ShowdownPaid, v')
        \<and> winners v' = [0, 1, 2, 3, 4] \<and> round2_active_indices v' = [0, 1, 3, 4]
        \<and> 2 \<in> set (winners v') \<and> 2 \<notin> set (round2_active_indices v')"
proof -
  from hand_showdown_tie obtain e v where
    r: "play_game ev_royal ins_call (with_stacks [10000, 10000, 150, 10000, 10000]) = Inr (e, v)"
    and f: "(e, map stack (players v), map is_lost_match (players v), pot v, winners v,
             round2_active_indices v, total_win v, remaining_pot v)
          = (ShowdownPaid, [9950, 9950, 350, 9950, 9950], [False, False, True, False, False],
             1750, [0, 1, 2, 3, 4], [0, 1, 3, 4], 1750, 0)"
    by (rule report_cases)
  from f have "e = ShowdownPaid" "winners v = [0, 1, 2, 3, 4]"
    "round2_active_indices v = [0, 1, 3, 4]" by simp_all
  then show ?thesis using r by simp
qed

text \<open>
  Claim C3 does not hold of the code, by the same defect: the payout loop credits every
  winner, also one marked eliminated earlier in the same hand. In the hand above seat 2 is
  marked eliminated in round 1 with its stack set to 0, and the showdown then pays it a
  fifth of the pot of 1750: the hand ends with seat 2 eliminated and holding 350. (That an
  eliminated player takes no further action does hold: the buy-in loop skips the player in
  every later hand, which also means that the 350 are never played again.)
\<close>

theorem eliminated_player_keeps_payout:
  "\<exists>v'. play_game ev_royal ins_call (with_stacks [10000, 10000, 150, 10000, 10000])
          = Inr (ShowdownPaid, v')
        \<and> is_lost_match (players v' ! 2) \<and> stack (players v' ! 2) = 350
        \<and> pot v' = 1750 \<and> total_win v' = 1750"
proof -
  from hand_showdown_tie obtain e v where
    r: "play_game ev_royal ins_call (with_stacks [10000, 10000, 150, 10000, 10000]) = Inr (e, v)"
    and f: "(e, map stack (players v), map is_lost_match (players v), pot v, winners v,
             round2_active_indices v, total_win v, remaining_pot v)
          = (ShowdownPaid, [9950, 9950, 350, 9950, 9950], [False, False, True, False, False],
             1750, [0, 1, 2, 3, 4], [0, 1, 3, 4], 1750, 0)"
    by (rule report_cases)
  from f have e: "e = ShowdownPaid" "pot v = 1750" "total_win v = 1750"
    and s: "map stack (players v) = [9950, 9950, 350, 9950, 9950]"
    and l: "map is_lost_match (players v) = [False, False, True, False, False]"
    by simp_all
  have "stack (players v ! 2) = 350" using map_nth_eq [OF s, of 2] by simp
  moreover have "is_lost_match (players v ! 2)" using map_nth_eq [OF l, of 2] by simp
  ultimately show ?thesis using r e by simp
qed

theorem too_few_funded_players_witness:
  "\<exists>v'. play_games ev_royal (\<lambda>g. ins_call) [1, 2, 3] (with_stacks [10000, 50, 50, 50, 50]) = Inr v'
        \<and> stack (players v' ! 0) = 9900 \<and> \<not> is_lost_match (players v' ! 0)
        \<and> stack (players v' ! 1) = 0 \<and> is_lost_match (players v' ! 1)
        \<and> total_stacks (players v') + pot v' = 10200
        \<and> match_history v' = [] \<and> no_of_wins v' = [0, 0, 0, 0, 0]"
proof -
  let ?v = "with_stacks [10000, 50, 50, 50, 50]"
  have ps: "players ?v = map (\<lambda>(p, s). p\<lparr>stack := s\<rparr>)
              (zip (map new_player PLAYER_NAMES) [10000, 50, 50, 50, 50])"
    by (simp add: with_stacks_def init_vars_def)
  have few: "length (filter funded (players ?v)) < 2"
    unfolding ps by (simp add: PLAYER_NAMES_def new_player_def funded_def BUY_IN_def)
  have dk: "7 \<le> length (shuffled_deck ((\<lambda>g. ins_call) (1::nat)))"
    by (simp add: ins_call_def deck_defs)
  from too_few_funded_players [of ?v "\<lambda>g. ins_call" 1 ev_royal "[2, 3]", OF few dk]
  obtain v' where
    r: "play_games ev_royal (\<lambda>g. ins_call) [1, 2, 3] ?v = Inr v'"
    and each: "\<forall>i < length (players ?v). after_buy_in (players ?v ! i) (players v' ! i)"
    and tot: "total_stacks (players v') + pot v' = total_stacks (players ?v)"
    and fr: "match_history v' = match_history ?v" "no_of_wins v' = no_of_wins ?v"
    by blast
  have len: "length (players ?v) = 5" unfolding ps by (simp add: PLAYER_NAMES_def)
  have a0: "after_buy_in (players ?v ! 0) (players v' ! 0)"
    using each [rule_format, of 0] len by simp
  have a1: "after_buy_in (players ?v ! 1) (players v' ! 1)"
    using each [rule_format, of 1] len by simp
  have "stack (players v' ! 0) = 9900 \<and> \<not> is_lost_match (players v' ! 0)"
    using a0 unfolding ps
    by (simp add: PLAYER_NAMES_def new_player_def funded_def after_buy_in_def BUY_IN_def)
  moreover have "stack (players v' ! 1) = 0 \<and> is_lost_match (players v' ! 1)"
    using a1 unfolding ps
    by (simp add: PLAYER_NAMES_def new_player_def funded_def after_buy_in_def BUY_IN_def)
  moreover have "total_stacks (players v') + pot v' = 10200"
    using tot unfolding ps by (simp add: total_stacks_def PLAYER_NAMES_def new_player_def)
  moreover have "match_history v' = [] \<and> no_of_wins v' = [0, 0, 0, 0, 0]"
    using fr by (simp add: with_stacks_def init_vars_def PLAYER_NAMES_def)
  ultimately show ?thesis using r by blast
qed

end
